theory Spec2Isabelle
  imports Main "HOL-Library.Word" "HOL-Library.Multiset"
begin

unbundle bit_operations_syntax

section \<open>Intel HEX files: \<^verbatim>\<open>ppci/utils/hexfile.py\<close>\<close>

subsection \<open>Exceptions and bytes\<close>

text \<open>
  Every exception the modelled Python can raise is a value. \<open>HexFileException\<close> carries
  its message; \<open>ValueError\<close>, \<open>IndexError\<close> and \<open>StructError\<close> (\<^verbatim>\<open>struct.error\<close>) are the
  built-in exceptions raised by \<^verbatim>\<open>bytes.fromhex\<close>, \<^verbatim>\<open>bytearray.append\<close>, indexing,
  \<^verbatim>\<open>list.remove\<close>, \<^verbatim>\<open>list.pop\<close> and \<^verbatim>\<open>struct.pack/unpack\<close>. A method that raises
  returns the exception alone: the state in which it leaves its object is not
  modelled.
\<close>

datatype error =
    HexFileException string
  | ValueError
  | IndexError
  | StructError

text \<open>A Python \<^verbatim>\<open>bytes\<close> object is a list of 8-bit values; Python integers are \<open>int\<close>.\<close>

type_synonym byte = "8 word"

definition DATA :: int where "DATA = 0"
definition EOF :: int where "EOF = 1"
definition EXTLINADR :: int where "EXTLINADR = 4"

text \<open>\<^verbatim>\<open>sum(nums)\<close> over a bytes object.\<close>

definition sum_bytes :: "byte list \<Rightarrow> int" where
  "sum_bytes nums = sum_list (map uint nums)"

text \<open>
  \<^verbatim>\<open>struct.pack('>H', v)\<close> raises \<^verbatim>\<open>struct.error\<close> unless \<open>0 \<le> v \<le> 65535\<close>;
  \<^verbatim>\<open>struct.unpack('>H', b)\<close> and \<^verbatim>\<open>struct.unpack('>I', b)\<close> raise it unless \<open>b\<close> has
  exactly 2 (4) bytes.
\<close>

definition pack_H :: "int \<Rightarrow> error + byte list" where
  "pack_H v =
     (if 0 \<le> v \<and> v \<le> 65535 then Inr [word_of_int (v div 256), word_of_int (v mod 256)]
      else Inl StructError)"

definition unpack_H :: "byte list \<Rightarrow> error + int" where
  "unpack_H b =
     (case b of
        [hi, lo] \<Rightarrow> Inr (uint hi * 256 + uint lo)
      | _ \<Rightarrow> Inl StructError)"

definition unpack_I :: "byte list \<Rightarrow> error + int" where
  "unpack_I b =
     (case b of
        [b3, b2, b1, b0] \<Rightarrow>
          Inr (uint b3 * 16777216 + uint b2 * 65536 + uint b1 * 256 + uint b0)
      | _ \<Rightarrow> Inl StructError)"

subsection \<open>Hexadecimal text\<close>

text \<open>\<^verbatim>\<open>binascii.hexlify\<close>: two lower-case digits per byte.\<close>

definition hexdigit :: "nat \<Rightarrow> char" where
  "hexdigit n = ''0123456789abcdef'' ! n"

definition hexlify :: "byte list \<Rightarrow> string" where
  "hexlify nums = concat (map (\<lambda>b. [hexdigit (unat b div 16), hexdigit (unat b mod 16)]) nums)"

text \<open>
  \<^verbatim>\<open>bytes.fromhex\<close>: white space between byte pairs is skipped, each byte is two
  hexadecimal digits of either case, anything else raises \<^verbatim>\<open>ValueError\<close>.
\<close>

definition isspace :: "char \<Rightarrow> bool" where
  "isspace c = ((of_char c :: nat) \<in> {9, 10, 11, 12, 13, 32})"

definition digit_value :: "char \<Rightarrow> nat option" where
  "digit_value c =
     (let n = (of_char c :: nat) in
      if 48 \<le> n \<and> n \<le> 57 then Some (n - 48)
      else if 97 \<le> n \<and> n \<le> 102 then Some (n - 87)
      else if 65 \<le> n \<and> n \<le> 70 then Some (n - 55)
      else None)"

fun fromhex :: "string \<Rightarrow> error + byte list" where
  "fromhex [] = Inr []"
| "fromhex [c] = (if isspace c then Inr [] else Inl ValueError)"
| "fromhex (c # d # cs) =
     (if isspace c then fromhex (d # cs)
      else case digit_value c of
        None \<Rightarrow> Inl ValueError
      | Some hi \<Rightarrow>
          (case digit_value d of
             None \<Rightarrow> Inl ValueError
           | Some lo \<Rightarrow>
               (case fromhex cs of
                  Inl e \<Rightarrow> Inl e
                | Inr rest \<Rightarrow> Inr (of_nat (hi * 16 + lo) # rest))))"

text \<open>
  \<^verbatim>\<open>str.strip()\<close>: white space is removed at both ends. The characters of a
  \<open>string\<close> are 8-bit, so the white space is the ASCII one.
\<close>

definition strip_space :: "char \<Rightarrow> bool" where
  "strip_space c = ((of_char c :: nat) \<in> {9, 10, 11, 12, 13, 28, 29, 30, 31, 32})"

definition strip :: "string \<Rightarrow> string" where
  "strip s = rev (dropWhile strip_space (rev (dropWhile strip_space s)))"

subsection \<open>Records\<close>

text \<open>
  \<^verbatim>\<open>parseHexLine\<close>. \<^verbatim>\<open>nums[0]\<close> raises \<^verbatim>\<open>IndexError\<close> on an empty line; after the
  length check there are at least five bytes, so the later slices are in range.
\<close>

definition parseHexLine :: "string \<Rightarrow> error + (int \<times> int \<times> byte list)" where
  "parseHexLine line0 =
     (let line = drop 1 line0 in
      case fromhex line of
        Inl e \<Rightarrow> Inl e
      | Inr nums \<Rightarrow>
          (case nums of
             [] \<Rightarrow> Inl IndexError
           | n0 # _ \<Rightarrow>
               (let bytecount = unat n0 in
                if length nums \<noteq> bytecount + 5
                then Inl (HexFileException ''byte count field incorrect'')
                else
                  (let crc = sum_bytes nums in
                   if crc AND 0xFF \<noteq> 0
                   then Inl (HexFileException ''crc incorrect'')
                   else
                     (case unpack_H (take 2 (drop 1 nums)) of
                        Inl e \<Rightarrow> Inl e
                      | Inr address \<Rightarrow>
                          Inr (address, uint (nums ! 3), drop 4 (butlast nums)))))))"

text \<open>
  \<^verbatim>\<open>makeHexLine\<close>. \<^verbatim>\<open>bytearray.append\<close> raises \<^verbatim>\<open>ValueError\<close> for a value outside
  \<open>0..255\<close> (the byte count, the type), \<^verbatim>\<open>struct.pack\<close> raises for the address.
\<close>

definition makeHexLine :: "int \<Rightarrow> int \<Rightarrow> byte list \<Rightarrow> error + string" where
  "makeHexLine address typ data =
     (let bytecount = length data in
      if 255 < bytecount then Inl ValueError
      else
        (case pack_H address of
           Inl e \<Rightarrow> Inl e
         | Inr ab \<Rightarrow>
             if typ < 0 \<or> 255 < typ then Inl ValueError
             else
               (let nums = [of_nat bytecount] @ ab @ [word_of_int typ] @ data;
                    crc = sum_bytes nums;
                    crc' = (NOT crc + 1) AND 0xFF;
                    nums' = nums @ [word_of_int crc']
                in Inr (CHR '':'' # hexlify nums'))))"

text \<open>
  The bytes \<^verbatim>\<open>makeHexLine\<close> assembles for a record it accepts: count, address, type,
  data and checksum.
\<close>

definition record_bytes :: "int \<Rightarrow> int \<Rightarrow> byte list \<Rightarrow> byte list" where
  "record_bytes a t d =
     (let nums = [of_nat (length d)] @ [word_of_int (a div 256), word_of_int (a mod 256)]
                   @ [word_of_int t] @ d
      in nums @ [word_of_int ((NOT (sum_bytes nums) + 1) AND 0xFF)])"

text \<open>\<^verbatim>\<open>chunks(data)\<close> with its default \<^verbatim>\<open>csize=16\<close>, as \<^verbatim>\<open>save\<close> calls it.\<close>

definition csize :: nat where "csize = 16"

function chunks :: "'a list \<Rightarrow> 'a list list" where
  "chunks data = (if data = [] then [] else take csize data # chunks (drop csize data))"
  by pat_completeness auto
termination
  by (relation "measure length") (auto simp: csize_def)

declare chunks.simps [simp del]

subsection \<open>Regions and files\<close>

record HexFileRegion =
  address :: int
  data :: "byte list"

definition EndAddress :: "HexFileRegion \<Rightarrow> int" where
  "EndAddress r = address r + int (length (data r))"

definition addData :: "HexFileRegion \<Rightarrow> byte list \<Rightarrow> HexFileRegion" where
  "addData r d = r\<lparr>data := data r @ d\<rparr>"

record HexFile =
  regions :: "HexFileRegion list"
  startAddress :: int

definition HexFile_init :: HexFile where
  "HexFile_init = \<lparr>regions = [], startAddress = 0\<rparr>"

text \<open>\<^verbatim>\<open>HexFile.__eq__\<close>: the lengths, then the regions pairwise by address and data.\<close>

definition HexFile_eq :: "HexFile \<Rightarrow> HexFile \<Rightarrow> bool" where
  "HexFile_eq self other =
     (if length (regions self) \<noteq> length (regions other) then False
      else list_all (\<lambda>(rs, ro). (address rs, data rs) = (address ro, data ro))
             (zip (regions self) (regions other)))"

subsection \<open>Sequencing of operations that may raise\<close>

definition ebind :: "error + 'a \<Rightarrow> ('a \<Rightarrow> error + 'b) \<Rightarrow> error + 'b" where
  "ebind m f = (case m of Inl e \<Rightarrow> Inl e | Inr x \<Rightarrow> f x)"

subsection \<open>\<^verbatim>\<open>HexFile.check\<close>\<close>

text \<open>
  \<^verbatim>\<open>list.remove(x)\<close> deletes the first element that compares equal to \<open>x\<close> and raises
  \<^verbatim>\<open>ValueError\<close> when there is none (\<open>None\<close> here).
\<close>

fun remove_first :: "('a \<Rightarrow> bool) \<Rightarrow> 'a list \<Rightarrow> 'a list option" where
  "remove_first P [] = None"
| "remove_first P (x # xs) =
     (if P x then Some xs else map_option ((#) x) (remove_first P xs))"

text \<open>
  One run of the \<^verbatim>\<open>for\<close> loop of \<^verbatim>\<open>check\<close>. The loop walks over
  \<^verbatim>\<open>zip(self.regions[:-1], self.regions[1:])\<close>, two copies of the list made before the
  first iteration, while its body mutates region objects (\<^verbatim>\<open>r1.addData\<close>) and deletes
  from the list itself (\<^verbatim>\<open>self.regions.remove(r2)\<close>). So the region objects get an
  identity: object \<open>i\<close> is the one at position \<open>i\<close> when the loop starts, \<open>objs ! i\<close> is
  its current value, and \<open>live\<close> lists the objects that are still in \<^verbatim>\<open>self.regions\<close>, in
  order. The pairs of the zip are the objects \<open>(i, i + 1)\<close>. \<^verbatim>\<open>remove\<close> compares with
  \<^verbatim>\<open>HexFileRegion.__eq__\<close>, by address and data, not by identity.
\<close>

fun check_for ::
  "nat list \<Rightarrow> HexFileRegion list \<Rightarrow> nat list \<Rightarrow> bool
     \<Rightarrow> error + (HexFileRegion list \<times> nat list \<times> bool)" where
  "check_for [] objs live change = Inr (objs, live, change)"
| "check_for (i # is) objs live change =
     (let r1 = objs ! i; r2 = objs ! (i + 1) in
      if EndAddress r1 = address r2 then
        (let objs' = objs[i := addData r1 (data r2)] in
         case remove_first (\<lambda>j. (address (objs' ! j), data (objs' ! j)) = (address r2, data r2)) live of
           None \<Rightarrow> Inl ValueError
         | Some live' \<Rightarrow> check_for is objs' live' True)
      else if EndAddress r1 > address r2 then Inl (HexFileException ''Overlapping regions'')
      else check_for is objs live change)"

definition check_pass :: "HexFileRegion list \<Rightarrow> error + (HexFileRegion list \<times> bool)" where
  "check_pass rs =
     (case check_for [0..<length rs - 1] rs [0..<length rs] False of
        Inl e \<Rightarrow> Inl e
      | Inr (objs, live, change) \<Rightarrow> Inr (map ((!) objs) live, change))"

lemma remove_first_length:
  "remove_first P xs = Some ys \<Longrightarrow> Suc (length ys) = length xs"
  by (induction xs arbitrary: ys) (auto split: if_splits)

lemma check_for_length:
  "check_for is objs live change = Inr (objs', live', change') \<Longrightarrow>
     length live' \<le> length live \<and> (change' \<and> \<not> change \<longrightarrow> length live' < length live)"
proof (induction "is" arbitrary: objs live change)
  case Nil
  then show ?case by simp
next
  case (Cons i "is")
  show ?case
  proof (cases "EndAddress (objs ! i) = address (objs ! (i + 1))")
    case True
    with Cons.prems obtain live0 where
      rm: "remove_first (\<lambda>j. (address ((objs[i := addData (objs ! i) (data (objs ! (i + 1)))]) ! j),
                               data ((objs[i := addData (objs ! i) (data (objs ! (i + 1)))]) ! j))
                              = (address (objs ! (i + 1)), data (objs ! (i + 1)))) live = Some live0"
      and rest: "check_for is (objs[i := addData (objs ! i) (data (objs ! (i + 1)))]) live0 True
                   = Inr (objs', live', change')"
      by (auto simp: Let_def split: option.splits)
    from Cons.IH [OF rest] remove_first_length [OF rm] show ?thesis by simp
  next
    case False
    with Cons.prems have "check_for is objs live change = Inr (objs', live', change')"
      by (auto simp: Let_def split: if_splits)
    from Cons.IH [OF this] show ?thesis .
  qed
qed

lemma check_pass_length:
  "check_pass rs = Inr (rs', True) \<Longrightarrow> length rs' < length rs"
  by (auto simp: check_pass_def split: sum.splits dest: check_for_length)

text \<open>
  The \<^verbatim>\<open>while change and len(self.regions) > 1\<close> loop: \<^verbatim>\<open>change\<close> starts as
  \<^verbatim>\<open>True\<close>, so the first test is on the length alone. Every run that sets \<^verbatim>\<open>change\<close>
  has removed a region, which is why the loop ends.
\<close>

function check_while :: "HexFileRegion list \<Rightarrow> error + HexFileRegion list" where
  "check_while rs =
     (if length rs > 1 then
        (case check_pass rs of
           Inl e \<Rightarrow> Inl e
         | Inr (rs', change) \<Rightarrow> if change then check_while rs' else Inr rs')
      else Inr rs)"
  by pat_completeness auto
termination
  by (relation "measure length") (auto dest: check_pass_length)

declare check_while.simps [simp del]

text \<open>\<^verbatim>\<open>self.regions.sort(key=lambda r: r.address)\<close> is a stable sort, as \<open>sort_key\<close> is.\<close>

definition check :: "HexFileRegion list \<Rightarrow> error + HexFileRegion list" where
  "check rs = check_while (sort_key address rs)"

definition addRegion :: "HexFile \<Rightarrow> int \<Rightarrow> byte list \<Rightarrow> error + HexFile" where
  "addRegion self a d =
     ebind (check (regions self @ [\<lparr>address = a, data = d\<rparr>]))
       (\<lambda>rs. Inr (self\<lparr>regions := rs\<rparr>))"

fun merge_loop :: "HexFileRegion list \<Rightarrow> HexFile \<Rightarrow> error + HexFile" where
  "merge_loop [] self = Inr self"
| "merge_loop (r # rs) self = ebind (addRegion self (address r) (data r)) (merge_loop rs)"

definition merge :: "HexFile \<Rightarrow> HexFile \<Rightarrow> error + HexFile" where
  "merge self other = merge_loop (regions other) self"

subsection \<open>\<^verbatim>\<open>HexFile.load\<close>\<close>

text \<open>
  \<^verbatim>\<open>hexfields\<close> on one line of the file: \<open>None\<close> when the line is skipped (empty after
  \<^verbatim>\<open>strip\<close>, or not starting with a colon), else what \<^verbatim>\<open>parseHexLine\<close> gives. It is a
  generator, so a line is parsed only when the loop of \<^verbatim>\<open>load\<close> asks for it.
\<close>

definition hexfield :: "string \<Rightarrow> (error + (int \<times> int \<times> byte list)) option" where
  "hexfield l =
     (let line = strip l in
      if line = [] then None
      else if hd line \<noteq> CHR '':'' then None
      else Some (parseHexLine line))"

text \<open>The decimal digits of \<^verbatim>\<open>'{0}'.format(typ)\<close> for a record type, which is a byte.\<close>

function decimal :: "nat \<Rightarrow> string" where
  "decimal n =
     (if n < 10 then [char_of (48 + n)] else decimal (n div 10) @ [char_of (48 + n mod 10)])"
  by pat_completeness auto
termination
  by (relation "measure id") auto

declare decimal.simps [simp del]

text \<open>
  The body of the loop of \<^verbatim>\<open>load\<close> on one record. The loop's variables are
  \<^verbatim>\<open>endOfFile\<close>, \<^verbatim>\<open>ext\<close> and the file object itself.
\<close>

fun load_record ::
  "bool \<times> int \<times> HexFile \<Rightarrow> int \<times> int \<times> byte list \<Rightarrow> error + (bool \<times> int \<times> HexFile)" where
  "load_record (endOfFile, ext, self) (addr, typ, dat) =
     (if endOfFile then Inl (HexFileException ''hexfile line after end of file record'')
      else if typ = 0 then
        ebind (addRegion self (addr + ext) dat) (\<lambda>self'. Inr (endOfFile, ext, self'))
      else if typ = EXTLINADR then
        ebind (unpack_H (take 2 dat)) (\<lambda>v. Inr (endOfFile, push_bit 16 v, self))
      else if typ = EOF then
        (if length dat \<noteq> 0 then Inl (HexFileException ''end of file not empty'')
         else Inr (True, ext, self))
      else if typ = 5 then
        ebind (unpack_I (take 4 dat)) (\<lambda>v. Inr (endOfFile, ext, self\<lparr>startAddress := v\<rparr>))
      else Inl (HexFileException (''record type '' @ decimal (nat typ) @ '' not implemented'')))"

fun load_loop :: "string list \<Rightarrow> bool \<times> int \<times> HexFile \<Rightarrow> error + (bool \<times> int \<times> HexFile)" where
  "load_loop [] st = Inr st"
| "load_loop (l # ls) st =
     (case hexfield l of
        None \<Rightarrow> load_loop ls st
      | Some parsed \<Rightarrow> ebind (ebind parsed (load_record st)) (load_loop ls))"

text \<open>A file is the list of its lines, each with its line end.\<close>

definition load :: "HexFile \<Rightarrow> string list \<Rightarrow> error + HexFile" where
  "load self f = ebind (load_loop f (False, 0, self)) (\<lambda>(endOfFile, ext, self'). Inr self')"

subsection \<open>\<^verbatim>\<open>HexFile.save\<close>\<close>

text \<open>\<^verbatim>\<open>emit\<close>: \<^verbatim>\<open>print(makeHexLine(address, typ, data), file=f)\<close> writes the line and a line feed.\<close>

definition emit :: "int \<Rightarrow> int \<Rightarrow> byte list \<Rightarrow> error + string" where
  "emit addr typ dat = ebind (makeHexLine addr typ dat) (\<lambda>line. Inr (line @ [CHR 0x0A]))"

text \<open>The inner loop of \<^verbatim>\<open>save\<close> over the chunks of one region, with \<^verbatim>\<open>ext\<close> and \<^verbatim>\<open>address\<close>.\<close>

fun save_chunks :: "byte list list \<Rightarrow> int \<Rightarrow> int \<Rightarrow> error + string list" where
  "save_chunks [] ext addr = Inr []"
| "save_chunks (chunk # cs) ext addr =
     (if addr \<ge> 0x10000 then
        (let ext' = ext + 0x10000 in
         ebind (pack_H (drop_bit 16 ext')) (\<lambda>p.
         ebind (emit 0 EXTLINADR p) (\<lambda>l1.
         let addr' = addr - 0x10000 in
         ebind (emit addr' DATA chunk) (\<lambda>l2.
         ebind (save_chunks cs ext' (addr' + int (length chunk))) (\<lambda>out.
         Inr (l1 # l2 # out))))))
      else
        ebind (emit addr DATA chunk) (\<lambda>l2.
        ebind (save_chunks cs ext (addr + int (length chunk))) (\<lambda>out.
        Inr (l2 # out))))"

fun save_regions :: "HexFileRegion list \<Rightarrow> error + string list" where
  "save_regions [] = Inr []"
| "save_regions (r # rs) =
     (let ext = address r AND 0xFFFF0000 in
      ebind (pack_H (drop_bit 16 ext)) (\<lambda>p.
      ebind (emit 0 EXTLINADR p) (\<lambda>l.
      ebind (save_chunks (chunks (data r)) ext (address r - ext)) (\<lambda>ls.
      ebind (save_regions rs) (\<lambda>out.
      Inr (l # ls @ out))))))"

definition save :: "HexFile \<Rightarrow> error + string list" where
  "save self =
     ebind (save_regions (regions self)) (\<lambda>out.
     ebind (emit 0 EOF []) (\<lambda>l. Inr (out @ [l])))"

subsection \<open>The order of the regions\<close>

text \<open>Each region ends strictly before the next one in the list starts.\<close>

fun gaps :: "HexFileRegion list \<Rightarrow> bool" where
  "gaps [] = True"
| "gaps [r] = True"
| "gaps (r1 # r2 # rs) = (EndAddress r1 < address r2 \<and> gaps (r2 # rs))"

text \<open>
  The regions are in strictly increasing order of address, consecutive ones leave a gap,
  and so does every pair of them.
\<close>

definition separated :: "HexFileRegion list \<Rightarrow> bool" where
  "separated rs =
     (sorted_wrt (\<lambda>r1 r2. address r1 < address r2) rs \<and> gaps rs \<and>
      sorted_wrt (\<lambda>r1 r2. EndAddress r1 < address r2) rs)"

section \<open>The RISC-V backend: \<^verbatim>\<open>ppci/arch/riscv/arch.py\<close>\<close>

subsection \<open>Registers and instructions\<close>

text \<open>
  Modelled from the spec: the modules \<^verbatim>\<open>registers\<close> and \<^verbatim>\<open>instructions\<close> that
  \<^verbatim>\<open>arch.py\<close> imports. A register is its number, \<open>x0\<close> to \<open>x31\<close>; \<^verbatim>\<open>LR\<close> is \<open>ra\<close>
  (\<open>x1\<close>), \<^verbatim>\<open>SP\<close> is \<open>x2\<close> and \<^verbatim>\<open>FP\<close> is \<open>x8\<close>.
\<close>

datatype RiscvRegister = RiscvRegister nat

definition R0 :: RiscvRegister where "R0 = RiscvRegister 0"
definition LR :: RiscvRegister where "LR = RiscvRegister 1"
definition SP :: RiscvRegister where "SP = RiscvRegister 2"
definition R5 :: RiscvRegister where "R5 = RiscvRegister 5"
definition R6 :: RiscvRegister where "R6 = RiscvRegister 6"
definition R10 :: RiscvRegister where "R10 = RiscvRegister 10"
definition R11 :: RiscvRegister where "R11 = RiscvRegister 11"
definition R12 :: RiscvRegister where "R12 = RiscvRegister 12"
definition R13 :: RiscvRegister where "R13 = RiscvRegister 13"
definition R14 :: RiscvRegister where "R14 = RiscvRegister 14"
definition R15 :: RiscvRegister where "R15 = RiscvRegister 15"
definition R16 :: RiscvRegister where "R16 = RiscvRegister 16"
definition R17 :: RiscvRegister where "R17 = RiscvRegister 17"
definition R28 :: RiscvRegister where "R28 = RiscvRegister 28"

lemmas reg_defs =
  R0_def LR_def SP_def R5_def R6_def R10_def R11_def R12_def R13_def R14_def R15_def
  R16_def R17_def R28_def

text \<open>
  The instruction objects \<^verbatim>\<open>make_call\<close> yields: \<^verbatim>\<open>Sw(rs2, offset, rs1)\<close> is
  \<^verbatim>\<open>sw rs2, offset(rs1)\<close>, \<^verbatim>\<open>Lw(rd, offset, rs1)\<close> is \<^verbatim>\<open>lw rd, offset(rs1)\<close>,
  \<^verbatim>\<open>Add(rd, rs1, imm)\<close> adds an immediate and \<^verbatim>\<open>Bl(LR, name)\<close> calls \<^verbatim>\<open>name\<close>, linking
  in \<^verbatim>\<open>LR\<close>.
\<close>

datatype instruction =
    Sw RiscvRegister int RiscvRegister
  | Lw RiscvRegister int RiscvRegister
  | Add RiscvRegister RiscvRegister int
  | Bl RiscvRegister string

subsection \<open>\<^verbatim>\<open>RiscvArch.determine_arg_locations\<close>\<close>

text \<open>
  The loop pops the head of \<^verbatim>\<open>regs\<close> for every argument type; \<^verbatim>\<open>pop(0)\<close> on the empty
  list raises \<^verbatim>\<open>IndexError\<close>. \<^verbatim>\<open>live_in\<close> is a Python set; the function returns it as a
  tuple, in the set's own order, so the model returns the set.
\<close>

fun arg_loop ::
  "'t list \<Rightarrow> RiscvRegister list \<Rightarrow> RiscvRegister list \<Rightarrow> RiscvRegister set
     \<Rightarrow> error + (RiscvRegister list \<times> RiscvRegister set)" where
  "arg_loop [] regs l live_in = Inr (l, live_in)"
| "arg_loop (a # as) regs l live_in =
     (case regs of
        [] \<Rightarrow> Inl IndexError
      | r # regs' \<Rightarrow> arg_loop as regs' (l @ [r]) (insert r live_in))"

definition determine_arg_locations ::
  "'t list \<Rightarrow> error + (RiscvRegister list \<times> RiscvRegister set)" where
  "determine_arg_locations arg_types =
     arg_loop arg_types [R11, R12, R13, R14, R15, R16, R17] [] {}"

subsection \<open>\<^verbatim>\<open>RiscvArch.make_call\<close>\<close>

text \<open>
  The two loops, each with the counter \<^verbatim>\<open>i\<close> it updates: the result is what was
  yielded and the final \<^verbatim>\<open>i\<close>. \<^verbatim>\<open>frame.live_regs_over(vcall)\<close> is a parameter, the
  list \<^verbatim>\<open>live_regs\<close>.
\<close>

fun store_loop :: "RiscvRegister list \<Rightarrow> int \<Rightarrow> instruction list \<times> int" where
  "store_loop [] i = ([], i)"
| "store_loop (register # rs) i =
     (let (out, i') = store_loop rs (i - 4) in (Sw register i SP # out, i'))"

fun load_regs_loop :: "RiscvRegister list \<Rightarrow> int \<Rightarrow> instruction list \<times> int" where
  "load_regs_loop [] i = ([], i)"
| "load_regs_loop (register # rs) i =
     (let (out, i') = load_regs_loop rs (i + 4) in (Lw register (i + 4) SP # out, i'))"

definition make_call :: "RiscvRegister list \<Rightarrow> string \<Rightarrow> instruction list" where
  "make_call live_regs function_name =
     (let (stores, i) = store_loop live_regs 0;
          i2 = i - 4;
          j = 0 + 4;
          (loads, j2) = load_regs_loop (rev live_regs) j
      in stores @ [Sw LR i SP, Add SP SP i2, Bl LR function_name, Lw LR j SP]
           @ loads @ [Add SP SP j2])"

text \<open>
  Every store of a sequence goes below the stack pointer: each \<^verbatim>\<open>sw\<close> in it has
  \<^verbatim>\<open>SP\<close> as its base and a negative offset.
\<close>

fun stores_below_SP :: "instruction list \<Rightarrow> bool" where
  "stores_below_SP [] = True"
| "stores_below_SP (Sw rs2 off rs1 # rest) = (rs1 = SP \<and> off < 0 \<and> stores_below_SP rest)"
| "stores_below_SP (ins # rest) = stores_below_SP rest"

text \<open>
  Modelled from the spec: what the yielded instructions do, on a 32-bit machine with a
  register file and a memory of words. \<open>mem s a\<close> is the word that \<^verbatim>\<open>sw\<close> stored at the
  address \<open>a\<close>; all addresses used here differ by multiples of four. The effect of the
  call itself is the parameter \<open>callee\<close>.
\<close>

record machine =
  regs :: "RiscvRegister \<Rightarrow> 32 word"
  mem :: "32 word \<Rightarrow> 32 word"

fun exec_instruction :: "(string \<Rightarrow> machine \<Rightarrow> machine) \<Rightarrow> instruction \<Rightarrow> machine \<Rightarrow> machine" where
  "exec_instruction callee (Sw rs2 off rs1) s =
     s\<lparr>mem := (mem s)(regs s rs1 + word_of_int off := regs s rs2)\<rparr>"
| "exec_instruction callee (Lw rd off rs1) s =
     s\<lparr>regs := (regs s)(rd := mem s (regs s rs1 + word_of_int off))\<rparr>"
| "exec_instruction callee (Add rd rs1 imm) s =
     s\<lparr>regs := (regs s)(rd := regs s rs1 + word_of_int imm)\<rparr>"
| "exec_instruction callee (Bl lr name) s = callee name s"

fun exec :: "(string \<Rightarrow> machine \<Rightarrow> machine) \<Rightarrow> instruction list \<Rightarrow> machine \<Rightarrow> machine" where
  "exec callee [] s = s"
| "exec callee (ins # rest) s = exec callee rest (exec_instruction callee ins s)"

text \<open>
  What a called function may be relied on to do: it returns with the stack pointer it
  was called with and leaves the \<open>n\<close> words above that stack pointer as they were. It
  may change every other register, \<^verbatim>\<open>ra\<close> included, and the rest of the memory.
\<close>

definition callee_keeps_frame :: "nat \<Rightarrow> (string \<Rightarrow> machine \<Rightarrow> machine) \<Rightarrow> bool" where
  "callee_keeps_frame n callee =
     (\<forall>name s. regs (callee name s) SP = regs s SP \<and>
        (\<forall>k. 1 \<le> k \<and> k \<le> n \<longrightarrow>
           mem (callee name s) (regs s SP + word_of_nat (4 * k))
             = mem s (regs s SP + word_of_nat (4 * k))))"

subsection \<open>The runtime helper \<^verbatim>\<open>__sdiv\<close> of \<^verbatim>\<open>RiscvArch.get_runtime\<close>\<close>

text \<open>
  Modelled from the spec: the assembler and the meaning of the mnemonics, which are not
  in \<^verbatim>\<open>arch.py\<close>. The instructions have their RISC-V meaning: \<^verbatim>\<open>blt\<close> and \<^verbatim>\<open>bgt\<close>
  compare signed, \<^verbatim>\<open>srai\<close> shifts arithmetically, \<^verbatim>\<open>jalr x0, ra, 0\<close> returns. The
  constructors are the mnemonics of the assembly source of \<^verbatim>\<open>get_runtime\<close>; \<^verbatim>\<open>mov\<close>
  and \<^verbatim>\<open>add\<close> take a register or an immediate there.
\<close>

datatype asm =
    Label string
  | Mov_imm RiscvRegister int
  | Mov_reg RiscvRegister RiscvRegister
  | Add_imm RiscvRegister RiscvRegister int
  | Sub_reg RiscvRegister RiscvRegister RiscvRegister
  | Slli RiscvRegister RiscvRegister nat
  | Srai RiscvRegister RiscvRegister nat
  | Blt RiscvRegister RiscvRegister string
  | Bgt RiscvRegister RiscvRegister string
  | J string
  | Jalr RiscvRegister RiscvRegister int

text \<open>The assembly source of \<^verbatim>\<open>get_runtime\<close>, line by line.\<close>

definition sdiv_src :: "asm list" where
  "sdiv_src =
     [Label ''__sdiv'',
      Mov_imm R14 0,
      Mov_reg R28 R12,
      Label ''__sdiv_inc'',
      Blt R28 R11 ''__sdiv_lsl'',
      J ''__sdiv_dec'',
      Label ''__sdiv_lsl'',
      Slli R28 R28 1,
      J ''__sdiv_inc'',
      Label ''__sdiv_dec'',
      Blt R11 R28 ''__sdiv_skip'',
      Sub_reg R11 R11 R28,
      Add_imm R14 R14 1,
      Label ''__sdiv_skip'',
      Srai R28 R28 1,
      Slli R14 R14 1,
      Label ''__skip_check'',
      Bgt R28 R12 ''__sdiv_dec'',
      Mov_reg R10 R14,
      Jalr R0 LR 0]"

fun find_label :: "string \<Rightarrow> asm list \<Rightarrow> nat option" where
  "find_label l [] = None"
| "find_label l (ins # rest) =
     (if ins = Label l then Some 0 else map_option Suc (find_label l rest))"

text \<open>
  One instruction at the program counter \<open>pc\<close> (an index into the program). The result
  is the next program counter and the registers, or the registers alone once the
  routine has returned.
\<close>

datatype outcome = Running nat "RiscvRegister \<Rightarrow> 32 word" | Returned "RiscvRegister \<Rightarrow> 32 word"

fun jump :: "asm list \<Rightarrow> string \<Rightarrow> (RiscvRegister \<Rightarrow> 32 word) \<Rightarrow> outcome option" where
  "jump prog l rf = (case find_label l prog of None \<Rightarrow> None | Some pc \<Rightarrow> Some (Running pc rf))"

fun step_asm :: "asm list \<Rightarrow> nat \<Rightarrow> (RiscvRegister \<Rightarrow> 32 word) \<Rightarrow> asm \<Rightarrow> outcome option" where
  "step_asm prog pc rf (Label l) = Some (Running (pc + 1) rf)"
| "step_asm prog pc rf (Mov_imm rd imm) = Some (Running (pc + 1) (rf(rd := word_of_int imm)))"
| "step_asm prog pc rf (Mov_reg rd rs) = Some (Running (pc + 1) (rf(rd := rf rs)))"
| "step_asm prog pc rf (Add_imm rd rs imm) =
     Some (Running (pc + 1) (rf(rd := rf rs + word_of_int imm)))"
| "step_asm prog pc rf (Sub_reg rd rs1 rs2) = Some (Running (pc + 1) (rf(rd := rf rs1 - rf rs2)))"
| "step_asm prog pc rf (Slli rd rs n) = Some (Running (pc + 1) (rf(rd := push_bit n (rf rs))))"
| "step_asm prog pc rf (Srai rd rs n) =
     Some (Running (pc + 1) (rf(rd := signed_drop_bit n (rf rs))))"
| "step_asm prog pc rf (Blt rs1 rs2 l) =
     (if sint (rf rs1) < sint (rf rs2) then jump prog l rf else Some (Running (pc + 1) rf))"
| "step_asm prog pc rf (Bgt rs1 rs2 l) =
     (if sint (rf rs1) > sint (rf rs2) then jump prog l rf else Some (Running (pc + 1) rf))"
| "step_asm prog pc rf (J l) = jump prog l rf"
| "step_asm prog pc rf (Jalr rd rs imm) = Some (Returned rf)"

text \<open>
  Running the routine for at most \<open>fuel\<close> instructions: \<open>None\<close> when it has not returned
  by then (or has left the program).
\<close>

fun run_asm :: "nat \<Rightarrow> asm list \<Rightarrow> nat \<Rightarrow> (RiscvRegister \<Rightarrow> 32 word) \<Rightarrow> (RiscvRegister \<Rightarrow> 32 word) option" where
  "run_asm 0 prog pc rf = None"
| "run_asm (Suc fuel) prog pc rf =
     (if pc < length prog then
        (case step_asm prog pc rf (prog ! pc) of
           None \<Rightarrow> None
         | Some (Returned rf') \<Rightarrow> Some rf'
         | Some (Running pc' rf') \<Rightarrow> run_asm fuel prog pc' rf')
      else None)"

text \<open>
  A call of \<^verbatim>\<open>__sdiv\<close> with the dividend in \<open>x11\<close> and the divisor in \<open>x12\<close>; the result
  is what \<open>x10\<close> holds at the return.
\<close>

definition sdiv :: "nat \<Rightarrow> 32 word \<Rightarrow> 32 word \<Rightarrow> 32 word option" where
  "sdiv fuel x11 x12 =
     (case find_label ''__sdiv'' sdiv_src of
        None \<Rightarrow> None
      | Some pc \<Rightarrow>
          map_option (\<lambda>rf. rf R10)
            (run_asm fuel sdiv_src pc ((\<lambda>r. 0)(R11 := x11, R12 := x12))))"

section \<open>Properties of the HEX records\<close>

lemma ebind_simps [simp]:
  "ebind (Inl e) f = Inl e" "ebind (Inr x) f = f x"
  by (simp_all add: ebind_def)

lemma nat_less_16_cases:
  "n < 16 \<Longrightarrow> n \<in> {0, 1, 2, 3, 4, 5, 6, 7, 8, 9, 10, 11, 12, 13, 14, 15::nat}"
  by (simp add: eval_nat_numeral less_Suc_eq)

lemma hexdigit_value: "n < 16 \<Longrightarrow> digit_value (hexdigit n) = Some n"
  by (drule nat_less_16_cases) (auto simp: digit_value_def hexdigit_def)

lemma hexdigit_not_space: "n < 16 \<Longrightarrow> \<not> isspace (hexdigit n)"
  by (drule nat_less_16_cases) (auto simp: isspace_def hexdigit_def)

lemma hexdigit_not_strip_space: "n < 16 \<Longrightarrow> \<not> strip_space (hexdigit n)"
  by (drule nat_less_16_cases) (auto simp: strip_space_def hexdigit_def)

lemma byte_div_16: "unat (b :: byte) div 16 < 16"
proof -
  have "unat b < 2 ^ LENGTH(8)" by (rule unsigned_less)
  then have "unat b < 256" by simp
  then show ?thesis by simp
qed

lemma byte_recompose: "(of_nat (unat (b :: byte) div 16 * 16 + unat b mod 16) :: byte) = b"
  by simp


lemma fromhex_hexlify: "fromhex (hexlify nums) = Inr nums"
proof (induction nums)
  case Nil
  then show ?case by (simp add: hexlify_def)
next
  case (Cons b nums)
  have "hexlify (b # nums) = hexdigit (unat b div 16) # hexdigit (unat b mod 16) # hexlify nums"
    by (simp add: hexlify_def)
  then show ?case
    using Cons.IH by (simp add: hexdigit_value hexdigit_not_space byte_div_16 byte_recompose)
qed

lemma and_255_mod: "(k::int) AND 255 = k mod 256"
  using take_bit_eq_mask [of 8 k] by (simp add: take_bit_eq_mod mask_eq_exp_minus_1)

lemma crc_byte: "uint (word_of_int ((NOT s + 1) AND 0xFF) :: byte) = (- s) mod 256"
  by (simp add: and_255_mod not_int_def uint_word_of_int)

lemma sum_bytes_append [simp]: "sum_bytes (xs @ ys) = sum_bytes xs + sum_bytes ys"
  by (simp add: sum_bytes_def)

lemma sum_bytes_crc:
  "sum_bytes (nums @ [word_of_int ((NOT (sum_bytes nums) + 1) AND 0xFF)]) mod 256 = 0"
proof -
  have "sum_bytes (nums @ [word_of_int ((NOT (sum_bytes nums) + 1) AND 0xFF)])
          = sum_bytes nums + (- sum_bytes nums) mod 256"
    by (simp add: sum_bytes_def crc_byte)
  also have "... mod 256 = 0"
    by (metis add.right_inverse mod_add_right_eq mod_0)
  finally show ?thesis .
qed

lemma unpack_pack_H:
  "0 \<le> a \<Longrightarrow> a \<le> 65535 \<Longrightarrow>
     unpack_H [word_of_int (a div 256), word_of_int (a mod 256) :: byte] = Inr a"
proof -
  assume a: "0 \<le> a" "a \<le> 65535"
  then have "a div 256 < 256" by simp
  moreover have "0 \<le> a div 256" using a by simp
  ultimately have "uint (word_of_int (a div 256) :: byte) = a div 256"
    by (simp add: uint_word_of_int)
  moreover have "uint (word_of_int (a mod 256) :: byte) = a mod 256"
    by (simp add: uint_word_of_int)
  ultimately show ?thesis by (simp add: unpack_H_def)
qed


lemma makeHexLine_eq:
  "0 \<le> a \<Longrightarrow> a \<le> 65535 \<Longrightarrow> 0 \<le> t \<Longrightarrow> t \<le> 255 \<Longrightarrow> length d \<le> 255 \<Longrightarrow>
     makeHexLine a t d = Inr (CHR '':'' # hexlify (record_bytes a t d))"
  by (simp add: makeHexLine_def pack_H_def record_bytes_def Let_def)

lemma sum_record_bytes: "sum_bytes (record_bytes a t d) mod 256 = 0"
  unfolding record_bytes_def Let_def by (rule sum_bytes_crc)

lemma record_bytes_last:
  "last (record_bytes a t d) = word_of_int (- sum_bytes (butlast (record_bytes a t d)))"
proof -
  have "(word_of_int (k mod 256) :: byte) = word_of_int k" for k
    by (simp add: word_of_int_eq_iff take_bit_eq_mod)
  from this [of "- s" for s]
  have "(word_of_int ((NOT s + 1) AND 0xFF) :: byte) = word_of_int (- s)" for s
    by (simp add: not_int_def and_255_mod del: word_of_int_minus)
  then show ?thesis by (simp add: record_bytes_def Let_def del: word_of_int_minus)
qed

lemma parseHexLine_record:
  assumes "0 \<le> a" "a \<le> 65535" "0 \<le> t" "t \<le> 255" "length d \<le> 255"
  shows "parseHexLine (CHR '':'' # hexlify (record_bytes a t d)) = Inr (a, t, d)"
proof -
  define crc :: byte where
    "crc = word_of_int ((NOT (sum_bytes ([of_nat (length d)] @ [word_of_int (a div 256), word_of_int (a mod 256)]
                   @ [word_of_int t] @ d)) + 1) AND 0xFF)"
  have rb: "record_bytes a t d =
      of_nat (length d) # word_of_int (a div 256) # word_of_int (a mod 256) # word_of_int t # d @ [crc]"
    by (simp add: record_bytes_def Let_def crc_def)
  have len: "unat (of_nat (length d) :: byte) = length d"
    using assms(5) by (simp add: unat_of_nat)
  have ty: "uint (word_of_int t :: byte) = t"
    using assms(3,4) by (simp add: uint_word_of_int)
  have crc0: "sum_bytes (record_bytes a t d) AND 255 = 0"
    using sum_record_bytes [of a t d] by (simp add: and_255_mod)
  have "parseHexLine (CHR '':'' # hexlify (record_bytes a t d)) =
      (case unpack_H (take 2 (drop 1 (record_bytes a t d))) of
         Inl e \<Rightarrow> Inl e
       | Inr v \<Rightarrow>
           Inr (v, uint (record_bytes a t d ! 3), drop 4 (butlast (record_bytes a t d))))"
    using crc0 by (simp add: parseHexLine_def fromhex_hexlify) (simp add: rb len)
  also have "\<dots> = Inr (a, t, d)"
    using assms(1,2) by (simp add: rb unpack_pack_H ty butlast_append)
  finally show ?thesis .
qed

text \<open>
  C5: for an address from \<open>0\<close> to below \<open>2\<^sup>1\<^sup>6\<close>, a record type that is a byte and a payload
  of at most 255 bytes, \<^verbatim>\<open>makeHexLine\<close> returns the text of a byte sequence whose sum is
  \<open>0\<close> modulo 256, whose last byte is the two's complement of the sum of the bytes before
  it, and which \<^verbatim>\<open>parseHexLine\<close> accepts, giving back the address, the type and the
  payload.
\<close>

theorem makeHexLine_checksum:
  assumes "0 \<le> a" "a < 2 ^ 16" "0 \<le> t" "t \<le> 255" "length d \<le> 255"
  shows "\<exists>nums. makeHexLine a t d = Inr (CHR '':'' # hexlify nums) \<and>
           fromhex (hexlify nums) = Inr nums \<and>
           sum_bytes nums mod 256 = 0 \<and>
           last nums = word_of_int (- sum_bytes (butlast nums)) \<and>
           parseHexLine (CHR '':'' # hexlify nums) = Inr (a, t, d)"
proof -
  from assms(2) have "a \<le> 65535" by simp
  with assms show ?thesis
    by (intro exI [of _ "record_bytes a t d"] conjI makeHexLine_eq fromhex_hexlify
          sum_record_bytes record_bytes_last parseHexLine_record)
qed

theorem makeHexLine_checksum_witness:
  "(0::int) \<le> 0x1234 \<and> (0x1234::int) < 2 ^ 16 \<and> (0::int) \<le> 0 \<and> (0::int) \<le> 255
     \<and> length [1, 2, 3 :: byte] \<le> 255 \<and>
   (\<exists>nums. makeHexLine 0x1234 0 [1, 2, 3] = Inr (CHR '':'' # hexlify nums) \<and>
           fromhex (hexlify nums) = Inr nums \<and>
           sum_bytes nums mod 256 = 0 \<and>
           last nums = word_of_int (- sum_bytes (butlast nums)) \<and>
           parseHexLine (CHR '':'' # hexlify nums) = Inr (0x1234, 0, [1, 2, 3]))"
  using makeHexLine_checksum [of "0x1234" 0 "[1, 2, 3]"] by simp

section \<open>Equality of files\<close>

lemma regions_eq_zip:
  "length xs = length ys \<Longrightarrow>
     list_all (\<lambda>(rs, ro). address rs = address ro \<and> data rs = data ro) (zip xs ys)
       = (xs = (ys :: HexFileRegion list))"
  by (induction xs ys rule: list_induct2) auto

lemma HexFile_eq_iff: "HexFile_eq x y = (regions x = regions y)"
  by (auto simp: HexFile_eq_def regions_eq_zip)



section \<open>Properties of the RISC-V backend\<close>

lemma arg_loop_take:
  "length as \<le> length rs \<Longrightarrow>
     arg_loop as rs l live_in
       = Inr (l @ take (length as) rs, live_in \<union> set (take (length as) rs))"
proof (induction as arbitrary: rs l live_in)
  case Nil
  then show ?case by simp
next
  case (Cons a as)
  then obtain r rs' where rs: "rs = r # rs'" by (cases rs) auto
  with Cons.prems have "length as \<le> length rs'" by simp
  from Cons.IH [OF this] show ?case by (simp add: rs)
qed

text \<open>
  C7: for at most seven argument types \<^verbatim>\<open>determine_arg_locations\<close> returns, as locations,
  the first registers of \<open>x11, \<dots>, x17\<close>, one per argument and in order, and as
  \<^verbatim>\<open>live_in\<close> exactly the set of these registers.
\<close>

theorem determine_arg_locations_registers:
  "length arg_types \<le> 7 \<Longrightarrow>
     determine_arg_locations arg_types
       = Inr (take (length arg_types) [R11, R12, R13, R14, R15, R16, R17],
              set (take (length arg_types) [R11, R12, R13, R14, R15, R16, R17]))"
  by (simp add: determine_arg_locations_def arg_loop_take)

theorem determine_arg_locations_registers_witness:
  "length [(), (), ()] \<le> 7 \<and>
   determine_arg_locations [(), (), ()] = Inr ([R11, R12, R13], {R11, R12, R13})"
  using determine_arg_locations_registers [of "[(), (), ()]"] by simp

lemma run_asm_more_fuel:
  "run_asm n prog pc rf = Some r \<Longrightarrow> n \<le> m \<Longrightarrow> run_asm m prog pc rf = Some r"
proof (induction n arbitrary: m pc rf)
  case 0
  then show ?case by simp
next
  case (Suc n)
  from Suc.prems(2) obtain m' where m: "m = Suc m'" and le: "n \<le> m'"
    by (cases m) auto
  from Suc.prems(1) show ?case
    unfolding m
    by (auto split: if_splits option.splits outcome.splits intro: Suc.IH [OF _ le])
qed

lemma sdiv_more_fuel:
  "sdiv n a b = Some q \<Longrightarrow> n \<le> m \<Longrightarrow> sdiv m a b = Some q"
  by (auto simp: sdiv_def split: option.splits dest: run_asm_more_fuel)

lemma sdiv_eval_21_4: "sdiv 100 21 4 = Some 4"
  by code_simp

text \<open>
  C3: \<^verbatim>\<open>__sdiv\<close> called with 21 in \<open>x11\<close> and 4 in \<open>x12\<close> returns, and \<open>x10\<close> holds the
  quotient 5. The routine does return, but with 4 in \<open>x10\<close>: its last test,
  \<^verbatim>\<open>bgt x28, x12, __sdiv_dec\<close>, leaves the loop before the step in which the shifted
  divisor equals the divisor, and the result has been shifted left once more by then.
  No amount of fuel gives 5.
\<close>

theorem sdiv_21_4: "sdiv 100 21 4 = Some 4 \<and> (\<forall>fuel. sdiv fuel 21 4 \<noteq> Some 5)"
proof (intro conjI allI notI)
  show "sdiv 100 21 4 = Some 4" by (rule sdiv_eval_21_4)
next
  fix fuel
  assume five: "sdiv fuel 21 4 = Some 5"
  show False
  proof (cases "fuel \<le> 100")
    case True
    from sdiv_more_fuel [OF five True] sdiv_eval_21_4 show False by simp
  next
    case False
    then have "100 \<le> fuel" by simp
    from sdiv_more_fuel [OF sdiv_eval_21_4 this] five show False by simp
  qed
qed

section \<open>What \<^verbatim>\<open>save\<close> writes\<close>

text \<open>
  C4, as stated: for the region \<open>(0x08000000, 01 02 03 04)\<close> and the start address
  \<open>0x08000000\<close>, \<^verbatim>\<open>save\<close> writes four records, the third being the Start Linear Address
  record \<^verbatim>\<open>:0400000508000000ef\<close>. It does not: \<^verbatim>\<open>save\<close> never writes a record of
  type 05.
\<close>

theorem save_example_counterexample:
  "emit 0 5 [8, 0, 0, 0] = Inr '':0400000508000000ef\<newline>'' \<and>
   save \<lparr>regions = [\<lparr>address = 0x08000000, data = [1, 2, 3, 4]\<rparr>], startAddress = 0x08000000\<rparr>
     \<noteq> Inr ['':020000040800f2\<newline>'', '':0400000001020304f2\<newline>'',
            '':0400000508000000ef\<newline>'', '':00000001ff\<newline>'']"
  by code_simp

text \<open>
  C4, amended: for that file \<^verbatim>\<open>save\<close> writes exactly three records: the Extended Linear
  Address record for the upper bits \<open>0x0800\<close>, the data record with the four bytes at
  offset 0, and the empty End Of File record, which is the last.
\<close>

theorem save_example:
  "save \<lparr>regions = [\<lparr>address = 0x08000000, data = [1, 2, 3, 4]\<rparr>], startAddress = 0x08000000\<rparr>
     = Inr ['':020000040800f2\<newline>'', '':0400000001020304f2\<newline>'', '':00000001ff\<newline>'']
   \<and> map hexfield ['':020000040800f2\<newline>'', '':0400000001020304f2\<newline>'', '':00000001ff\<newline>'']
     = [Some (Inr (0, 4, [8, 0])), Some (Inr (0, 0, [1, 2, 3, 4])), Some (Inr (0, 1, []))]"
  by code_simp

section \<open>The regions after \<^verbatim>\<open>addRegion\<close>\<close>

lemma gaps_nth:
  "gaps rs = (\<forall>i. i + 1 < length rs \<longrightarrow> EndAddress (rs ! i) < address (rs ! (i + 1)))"
proof (induction rs rule: gaps.induct)
  case (3 r1 r2 rs)
  show ?case
  proof
    assume g: "gaps (r1 # r2 # rs)"
    show "\<forall>i. i + 1 < length (r1 # r2 # rs) \<longrightarrow>
            EndAddress ((r1 # r2 # rs) ! i) < address ((r1 # r2 # rs) ! (i + 1))"
    proof (intro allI impI)
      fix i assume "i + 1 < length (r1 # r2 # rs)"
      then show "EndAddress ((r1 # r2 # rs) ! i) < address ((r1 # r2 # rs) ! (i + 1))"
        using g "3.IH" by (cases i) auto
    qed
  next
    assume a: "\<forall>i. i + 1 < length (r1 # r2 # rs) \<longrightarrow>
            EndAddress ((r1 # r2 # rs) ! i) < address ((r1 # r2 # rs) ! (i + 1))"
    from a [rule_format, of 0] have "EndAddress r1 < address r2" by simp
    moreover have "gaps (r2 # rs)"
      unfolding "3.IH"
    proof (intro allI impI)
      fix i assume "i + 1 < length (r2 # rs)"
      with a [rule_format, of "Suc i"]
      show "EndAddress ((r2 # rs) ! i) < address ((r2 # rs) ! (i + 1))" by simp
    qed
    ultimately show "gaps (r1 # r2 # rs)" by simp
  qed
qed simp_all

lemma address_le_EndAddress: "address r \<le> EndAddress r"
  by (simp add: EndAddress_def)

lemma gaps_sorted_End:
  "gaps rs \<Longrightarrow> sorted_wrt (\<lambda>r1 r2. EndAddress r1 < address r2) rs"
proof (induction rs rule: gaps.induct)
  case (3 r1 r2 rs)
  then have s: "sorted_wrt (\<lambda>r1 r2. EndAddress r1 < address r2) (r2 # rs)"
    and lt: "EndAddress r1 < address r2" by simp_all
  have "EndAddress r1 < address x" if "x \<in> set rs" for x
  proof -
    from s that have "EndAddress r2 < address x" by simp
    with lt address_le_EndAddress [of r2] show ?thesis by simp
  qed
  with s lt show ?case by simp
qed simp_all

lemma gaps_sorted_address:
  "gaps rs \<Longrightarrow> sorted_wrt (\<lambda>r1 r2. address r1 < address r2) rs"
proof -
  assume "gaps rs"
  then have "sorted_wrt (\<lambda>r1 r2. EndAddress r1 < address r2) rs" by (rule gaps_sorted_End)
  then show ?thesis
  proof (rule sorted_wrt_mono_rel [rotated])
    fix x y assume "EndAddress x < address y"
    with address_le_EndAddress [of x] show "address x < address y" by simp
  qed
qed

lemma check_for_keeps_change:
  "check_for is objs live True = Inr (objs', live', change') \<Longrightarrow> change'"
  by (induction "is" arbitrary: objs live)
     (auto simp: Let_def split: if_splits option.splits)

lemma check_for_unchanged:
  "check_for is objs live change = Inr (objs', live', False) \<Longrightarrow>
     objs' = objs \<and> live' = live \<and>
     (\<forall>i\<in>set is. EndAddress (objs ! i) < address (objs ! (i + 1)))"
proof (induction "is" arbitrary: objs live change)
  case Nil
  then show ?case by simp
next
  case (Cons i "is")
  show ?case
  proof (cases "EndAddress (objs ! i) = address (objs ! (i + 1))")
    case True
    with Cons.prems show ?thesis
      by (auto simp: Let_def split: option.splits dest: check_for_keeps_change)
  next
    case False
    with Cons.prems have lt: "EndAddress (objs ! i) < address (objs ! (i + 1))"
      and rest: "check_for is objs live change = Inr (objs', live', False)"
      by (auto simp: Let_def split: if_splits)
    from Cons.IH [OF rest] lt show ?thesis by simp
  qed
qed

lemma check_pass_unchanged:
  assumes "check_pass rs = Inr (rs', False)"
  shows "rs' = rs \<and> gaps rs"
proof -
  from assms obtain objs live where
    cf: "check_for [0..<length rs - 1] rs [0..<length rs] False = Inr (objs, live, False)"
    and rs': "rs' = map ((!) objs) live"
    by (auto simp: check_pass_def split: sum.splits)
  from check_for_unchanged [OF cf] have o: "objs = rs" and l: "live = [0..<length rs]"
    and g: "\<forall>i\<in>set [0..<length rs - 1]. EndAddress (rs ! i) < address (rs ! (i + 1))"
    by simp_all
  from g have "gaps rs" by (auto simp: gaps_nth)
  moreover have "rs' = rs" by (simp add: rs' o l map_nth)
  ultimately show ?thesis by simp
qed

lemma gaps_short: "length rs \<le> 1 \<Longrightarrow> gaps rs"
  by (cases rs rule: gaps.cases) auto

lemma check_while_gaps: "check_while rs = Inr rs' \<Longrightarrow> gaps rs'"
proof (induction rs rule: check_while.induct)
  case (1 rs)
  show ?case
  proof (cases "length rs > 1")
    case False
    with "1.prems" have "rs' = rs" by (simp add: check_while.simps [of rs])
    with False show ?thesis by (simp add: gaps_short)
  next
    case True
    with "1.prems" obtain rs1 change where
      cp: "check_pass rs = Inr (rs1, change)"
      and r: "(if change then check_while rs1 else Inr rs1) = Inr rs'"
      by (auto simp: check_while.simps [of rs] split: sum.splits)
    show ?thesis
    proof (cases change)
      case True
      with r have "check_while rs1 = Inr rs'" by simp
      from "1.IH" [OF \<open>length rs > 1\<close> cp refl True this] show ?thesis .
    next
      case False
      with r have "rs' = rs1" by simp
      moreover from cp False have "check_pass rs = Inr (rs1, False)" by simp
      from check_pass_unchanged [OF this] have "rs1 = rs" "gaps rs" by simp_all
      ultimately show ?thesis by simp
    qed
  qed
qed

lemma addRegion_gaps: "addRegion self a d = Inr self' \<Longrightarrow> gaps (regions self')"
  by (auto simp: addRegion_def check_def ebind_def split: sum.splits dest: check_while_gaps)

lemma separated_gaps: "separated rs = gaps rs"
  by (auto simp: separated_def gaps_sorted_End gaps_sorted_address)

lemma load_record_gaps:
  "load_record (e, x, self) r = Inr (e', x', self') \<Longrightarrow> gaps (regions self) \<Longrightarrow>
     gaps (regions self')"
  by (cases r)
     (auto simp: ebind_def split: if_splits sum.splits dest: addRegion_gaps)

lemma load_loop_gaps:
  "load_loop f (e, x, self) = Inr (e', x', self') \<Longrightarrow> gaps (regions self) \<Longrightarrow>
     gaps (regions self')"
proof (induction f arbitrary: e x self)
  case Nil
  then show ?case by simp
next
  case (Cons l f)
  show ?case
  proof (cases "hexfield l")
    case None
    with Cons.prems Cons.IH show ?thesis by simp
  next
    case (Some parsed)
    with Cons.prems obtain r e1 x1 self1 where
      "load_record (e, x, self) r = Inr (e1, x1, self1)"
      "load_loop f (e1, x1, self1) = Inr (e', x', self')"
      by (cases parsed; cases "load_record (e, x, self) (projr parsed)") auto
    with Cons.prems(2) Cons.IH load_record_gaps show ?thesis by blast
  qed
qed

lemma load_gaps: "load self f = Inr self' \<Longrightarrow> gaps (regions self) \<Longrightarrow> gaps (regions self')"
  by (auto simp: load_def ebind_def split: sum.splits dest: load_loop_gaps)

lemma merge_loop_gaps:
  "merge_loop rs self = Inr self' \<Longrightarrow> gaps (regions self) \<Longrightarrow> gaps (regions self')"
proof (induction rs arbitrary: self)
  case Nil
  then show ?case by simp
next
  case (Cons r rs)
  then obtain self1 where a: "addRegion self (address r) (data r) = Inr self1"
    and m: "merge_loop rs self1 = Inr self'"
    by (auto simp: ebind_def split: sum.splits)
  from Cons.IH [OF m addRegion_gaps [OF a]] show ?case .
qed

text \<open>
  C9: after every successful \<^verbatim>\<open>addRegion\<close> the regions are in strictly increasing order
  of address, each region ends strictly before the next one starts, and so any two of
  them are disjoint with a gap between them. \<^verbatim>\<open>load\<close> and \<^verbatim>\<open>merge\<close> change the regions
  through \<^verbatim>\<open>addRegion\<close> only, so they keep this.
\<close>

theorem addRegion_separated:
  "(addRegion self a d = Inr self' \<longrightarrow> separated (regions self')) \<and>
   (separated (regions self) \<and> load self f = Inr self' \<longrightarrow> separated (regions self')) \<and>
   (separated (regions self) \<and> merge self other = Inr self' \<longrightarrow> separated (regions self'))"
  by (auto simp: separated_gaps merge_def dest: addRegion_gaps load_gaps merge_loop_gaps)

theorem addRegion_separated_witness:
  "addRegion \<lparr>regions = [\<lparr>address = 0x200, data = [1, 2]\<rparr>], startAddress = 0\<rparr> 0x100 [0x11]
     = Inr \<lparr>regions = [\<lparr>address = 0x100, data = [0x11]\<rparr>, \<lparr>address = 0x200, data = [1, 2]\<rparr>],
            startAddress = 0\<rparr> \<and>
   separated [\<lparr>address = 0x100, data = [0x11]\<rparr>, \<lparr>address = 0x200, data = [1, 2]\<rparr>] \<and>
   separated (regions HexFile_init) \<and>
   load HexFile_init ['':020000040000fa\<newline>'', '':0400100001020304e2\<newline>'', '':00000001ff\<newline>'']
     = Inr \<lparr>regions = [\<lparr>address = 0x10, data = [1, 2, 3, 4]\<rparr>], startAddress = 0\<rparr> \<and>
   separated [\<lparr>address = 0x10, data = [1, 2, 3, 4]\<rparr>] \<and>
   merge HexFile_init \<lparr>regions = [\<lparr>address = 0x200, data = [1, 2]\<rparr>], startAddress = 0\<rparr>
     = Inr \<lparr>regions = [\<lparr>address = 0x200, data = [1, 2]\<rparr>], startAddress = 0\<rparr> \<and>
   separated [\<lparr>address = 0x200, data = [1, 2]\<rparr>]"
proof -
  have a: "addRegion \<lparr>regions = [\<lparr>address = 0x200, data = [1, 2]\<rparr>], startAddress = 0\<rparr> 0x100 [0x11]
     = Inr \<lparr>regions = [\<lparr>address = 0x100, data = [0x11]\<rparr>, \<lparr>address = 0x200, data = [1, 2]\<rparr>],
            startAddress = 0\<rparr>"
    by code_simp
  have l: "load HexFile_init ['':020000040000fa\<newline>'', '':0400100001020304e2\<newline>'', '':00000001ff\<newline>'']
     = Inr \<lparr>regions = [\<lparr>address = 0x10, data = [1, 2, 3, 4]\<rparr>], startAddress = 0\<rparr>"
    by code_simp
  have m: "merge HexFile_init \<lparr>regions = [\<lparr>address = 0x200, data = [1, 2]\<rparr>], startAddress = 0\<rparr>
     = Inr \<lparr>regions = [\<lparr>address = 0x200, data = [1, 2]\<rparr>], startAddress = 0\<rparr>"
    by code_simp
  have i: "separated (regions HexFile_init)"
    by (simp add: HexFile_init_def separated_def)
  from addRegion_separated
    [where self = "\<lparr>regions = [\<lparr>address = 0x200, data = [1, 2]\<rparr>], startAddress = 0\<rparr>"
       and a = "0x100" and d = "[0x11]"
       and self' = "\<lparr>regions = [\<lparr>address = 0x100, data = [0x11]\<rparr>, \<lparr>address = 0x200, data = [1, 2]\<rparr>],
            startAddress = 0\<rparr>"]
    a
  have 1: "separated [\<lparr>address = 0x100, data = [0x11]\<rparr>, \<lparr>address = 0x200, data = [1, 2]\<rparr>]"
    by simp
  from addRegion_separated
    [where self = HexFile_init
       and f = "['':020000040000fa\<newline>'', '':0400100001020304e2\<newline>'', '':00000001ff\<newline>'']"
       and self' = "\<lparr>regions = [\<lparr>address = 0x10, data = [1, 2, 3, 4]\<rparr>], startAddress = 0\<rparr>"]
    i l
  have 2: "separated [\<lparr>address = 0x10, data = [1, 2, 3, 4]\<rparr>]"
    by simp
  from addRegion_separated
    [where self = HexFile_init
       and other = "\<lparr>regions = [\<lparr>address = 0x200, data = [1, 2]\<rparr>], startAddress = 0\<rparr>"
       and self' = "\<lparr>regions = [\<lparr>address = 0x200, data = [1, 2]\<rparr>], startAddress = 0\<rparr>"]
    i m
  have 3: "separated [\<lparr>address = 0x200, data = [1, 2]\<rparr>]"
    by simp
  from a l m i 1 2 3 show ?thesis by simp
qed

section \<open>The end of file record in \<^verbatim>\<open>load\<close>\<close>

lemma load_loop_append:
  "load_loop (xs @ ys) st = ebind (load_loop xs st) (load_loop ys)"
proof (induction xs arbitrary: st)
  case Nil
  then show ?case by simp
next
  case (Cons l xs)
  then show ?case
    by (cases "hexfield l") (auto simp: ebind_def split: sum.splits)
qed

lemma load_loop_skipped:
  "\<forall>m\<in>set mid. hexfield m = None \<Longrightarrow> load_loop (mid @ ys) st = load_loop ys st"
  by (induction mid) auto

lemma load_record_eof_flag:
  "load_record (True, x, self) r = Inl (HexFileException ''hexfile line after end of file record'')"
  by (cases r) simp

text \<open>
  C8: in \<^verbatim>\<open>load\<close>, once an End Of File record has been read, the next record that
  \<^verbatim>\<open>hexfields\<close> yields (skipped lines in between do not count) raises
  \<^verbatim>\<open>HexFileException\<close>; and an End Of File record with data raises \<^verbatim>\<open>HexFileException\<close>
  as well. \<open>pre\<close> are the lines read without an exception before that.
\<close>

theorem load_end_of_file:
  "(load_loop pre (False, 0, self) = Inr st \<and> hexfield e = Some (Inr (a, 1, [])) \<and>
      (\<forall>m\<in>set mid. hexfield m = None) \<and> hexfield l = Some (Inr r) \<longrightarrow>
      load self (pre @ e # mid @ l # post)
        = Inl (HexFileException ''hexfile line after end of file record'')) \<and>
   (load_loop pre (False, 0, self) = Inr st \<and> hexfield e = Some (Inr (a, 1, d)) \<and> d \<noteq> [] \<longrightarrow>
      (\<exists>msg. load self (pre @ e # post) = Inl (HexFileException msg)))"
proof (intro conjI impI)
  assume h: "load_loop pre (False, 0, self) = Inr st \<and> hexfield e = Some (Inr (a, 1, [])) \<and>
      (\<forall>m\<in>set mid. hexfield m = None) \<and> hexfield l = Some (Inr r)"
  obtain ef x self1 where st: "st = (ef, x, self1)" by (cases st)
  show "load self (pre @ e # mid @ l # post)
        = Inl (HexFileException ''hexfile line after end of file record'')"
  proof (cases ef)
    case True
    with h st show ?thesis
      by (simp add: load_def load_loop_append [of pre] load_record_eof_flag)
  next
    case False
    with h st show ?thesis
      by (simp add: load_def load_loop_append [of pre] load_loop_skipped load_record_eof_flag
            EOF_def EXTLINADR_def)
  qed
next
  assume h: "load_loop pre (False, 0, self) = Inr st \<and> hexfield e = Some (Inr (a, 1, d)) \<and> d \<noteq> []"
  obtain ef x self1 where st: "st = (ef, x, self1)" by (cases st)
  show "\<exists>msg. load self (pre @ e # post) = Inl (HexFileException msg)"
  proof (cases ef)
    case True
    with h st show ?thesis
      by (simp add: load_def load_loop_append [of pre] load_record_eof_flag)
  next
    case False
    with h st show ?thesis
      by (simp add: load_def load_loop_append [of pre] EOF_def EXTLINADR_def)
  qed
qed

theorem load_end_of_file_witness:
  "load_loop ['':0400100001020304e2\<newline>''] (False, 0, HexFile_init)
     = Inr (False, 0, \<lparr>regions = [\<lparr>address = 0x10, data = [1, 2, 3, 4]\<rparr>], startAddress = 0\<rparr>) \<and>
   hexfield '':00000001ff\<newline>'' = Some (Inr (0, 1, [])) \<and>
   hexfield ''\<newline>'' = None \<and> hexfield ''; comment\<newline>'' = None \<and>
   hexfield '':0400100001020304e2\<newline>'' = Some (Inr (0x10, 0, [1, 2, 3, 4])) \<and>
   load HexFile_init
     ['':0400100001020304e2\<newline>'', '':00000001ff\<newline>'', ''\<newline>'', ''; comment\<newline>'',
      '':0400100001020304e2\<newline>'']
     = Inl (HexFileException ''hexfile line after end of file record'') \<and>
   hexfield '':0100000100fe\<newline>'' = Some (Inr (0, 1, [0])) \<and> [0 :: byte] \<noteq> [] \<and>
   (\<exists>msg. load HexFile_init ['':0400100001020304e2\<newline>'', '':0100000100fe\<newline>'']
             = Inl (HexFileException msg))"
proof -
  have p: "load_loop ['':0400100001020304e2\<newline>''] (False, 0, HexFile_init)
     = Inr (False, 0, \<lparr>regions = [\<lparr>address = 0x10, data = [1, 2, 3, 4]\<rparr>], startAddress = 0\<rparr>)"
    by code_simp
  have e: "hexfield '':00000001ff\<newline>'' = Some (Inr (0, 1, []))" by code_simp
  have m1: "hexfield ''\<newline>'' = None" by code_simp
  have m2: "hexfield ''; comment\<newline>'' = None" by code_simp
  from m1 m2 have m: "\<forall>m\<in>set [''\<newline>'', ''; comment\<newline>'']. hexfield m = None" by simp
  have l: "hexfield '':0400100001020304e2\<newline>'' = Some (Inr (0x10, 0, [1, 2, 3, 4]))" by code_simp
  have e2: "hexfield '':0100000100fe\<newline>'' = Some (Inr (0, 1, [0]))" by code_simp
  from load_end_of_file
    [where pre = "['':0400100001020304e2\<newline>'']" and self = HexFile_init
       and e = "'':00000001ff\<newline>''" and a = 0
       and mid = "[''\<newline>'', ''; comment\<newline>'']" and l = "'':0400100001020304e2\<newline>''"
       and post = "[]"]
    p e m l
  have 1: "load HexFile_init
     ['':0400100001020304e2\<newline>'', '':00000001ff\<newline>'', ''\<newline>'', ''; comment\<newline>'',
      '':0400100001020304e2\<newline>'']
     = Inl (HexFileException ''hexfile line after end of file record'')"
    by simp
  from load_end_of_file
    [where pre = "['':0400100001020304e2\<newline>'']" and self = HexFile_init
       and e = "'':0100000100fe\<newline>''" and a = 0 and d = "[0]" and post = "[]"]
    p e2
  have 2: "\<exists>msg. load HexFile_init ['':0400100001020304e2\<newline>'', '':0100000100fe\<newline>'']
             = Inl (HexFileException msg)"
    by simp
  from p e m1 m2 l e2 1 2 show ?thesis by simp
qed

section \<open>Adding a region behind the others\<close>

lemma check_for_gaps:
  "\<forall>i\<in>set is. EndAddress (objs ! i) < address (objs ! (i + 1)) \<Longrightarrow>
     check_for is objs live change = Inr (objs, live, change)"
  by (induction "is") (auto simp: Let_def)

lemma check_for_append:
  "check_for (is @ js) objs live change =
     (case check_for is objs live change of
        Inl e \<Rightarrow> Inl e
      | Inr (objs', live', change') \<Rightarrow> check_for js objs' live' change')"
  by (induction "is" arbitrary: objs live change) (auto simp: Let_def split: option.splits)

lemma check_pass_gaps: "gaps rs \<Longrightarrow> check_pass rs = Inr (rs, False)"
proof -
  assume "gaps rs"
  then have "\<forall>i\<in>set [0..<length rs - 1]. EndAddress (rs ! i) < address (rs ! (i + 1))"
    by (auto simp: gaps_nth)
  from check_for_gaps [OF this] show ?thesis
    by (simp add: check_pass_def map_nth)
qed

lemma check_while_gaps_id: "gaps rs \<Longrightarrow> check_while rs = Inr rs"
  by (simp add: check_while.simps [of rs] check_pass_gaps)

lemma gaps_sorted: "gaps rs \<Longrightarrow> sorted (map address rs)"
proof -
  assume "gaps rs"
  then have "sorted_wrt (\<lambda>r1 r2. address r1 < address r2) rs" by (rule gaps_sorted_address)
  then have "sorted_wrt (\<lambda>r1 r2. address r1 \<le> address r2) rs"
    by (rule sorted_wrt_mono_rel [rotated]) simp
  then show ?thesis by (simp add: sorted_map)
qed

lemma check_gaps_id: "gaps rs \<Longrightarrow> check rs = Inr rs"
  by (simp add: check_def sort_key_id_if_sorted gaps_sorted check_while_gaps_id)

lemma gaps_snoc:
  "gaps (rs @ [n]) = (gaps rs \<and> (rs = [] \<or> EndAddress (last rs) < address n))"
  by (induction rs rule: gaps.induct) auto

lemma remove_first_last:
  "\<forall>x\<in>set xs. \<not> P x \<Longrightarrow> P y \<Longrightarrow> remove_first P (xs @ [y]) = Some xs"
  by (induction xs) auto

lemma map_nth_prefix: "map ((!) (xs @ ys)) [0..<length xs] = xs"
proof -
  have "map ((!) (xs @ ys)) [0..<length xs] = map ((!) xs) [0..<length xs]"
    by (rule map_cong) (auto simp: nth_append)
  then show ?thesis by (simp add: map_nth)
qed

text \<open>A region that starts where the last region ends is appended to it.\<close>

lemma check_pass_adjacent_last:
  assumes g: "gaps (pre @ [l])" and ne: "data l \<noteq> []" and adj: "address n = EndAddress l"
  shows "check_pass (pre @ [l, n]) = Inr (pre @ [addData l (data n)], True)"
proof -
  define k where "k = length pre"
  define objs where "objs = pre @ [l, n]"
  define objs' where "objs' = pre @ [addData l (data n), n]"
  have len: "length objs = k + 2" by (simp add: objs_def k_def)
  have upt1: "[0..<length objs - 1] = [0..<k] @ [k]" by (simp add: len)
  have upt2: "[0..<length objs] = [0..<Suc k] @ [Suc k]" by (simp add: len)
  have objs_k: "objs ! k = l" "objs ! (Suc k) = n"
    by (simp_all add: objs_def k_def nth_append)
  have "\<forall>i\<in>set [0..<k]. EndAddress (objs ! i) < address (objs ! (i + 1))"
  proof
    fix i assume "i \<in> set [0..<k]"
    then have i: "i + 1 < length (pre @ [l])" by (simp add: k_def)
    with g have "EndAddress ((pre @ [l]) ! i) < address ((pre @ [l]) ! (i + 1))"
      by (simp add: gaps_nth)
    moreover from i have "objs ! i = (pre @ [l]) ! i" "objs ! (i + 1) = (pre @ [l]) ! (i + 1)"
      by (simp_all add: objs_def nth_append)
    ultimately show "EndAddress (objs ! i) < address (objs ! (i + 1))" by simp
  qed
  then have first: "check_for [0..<k] objs [0..<length objs] False
                      = Inr (objs, [0..<length objs], False)"
    by (rule check_for_gaps)
  have upd: "objs[k := addData l (data n)] = objs'"
    by (simp add: objs_def objs'_def k_def list_update_append)
  have sorted: "sorted_wrt (\<lambda>r1 r2. address r1 < address r2) (pre @ [l])"
    using g by (rule gaps_sorted_address)
  have lt: "address l < address n"
    using ne adj by (simp add: EndAddress_def)
  have no_earlier: "\<forall>j\<in>set [0..<Suc k]. (address (objs' ! j), data (objs' ! j)) \<noteq> (address n, data n)"
  proof
    fix j assume "j \<in> set [0..<Suc k]"
    then have j: "j \<le> k" by auto
    show "(address (objs' ! j), data (objs' ! j)) \<noteq> (address n, data n)"
    proof (cases "j = k")
      case True
      then have "objs' ! j = addData l (data n)" by (simp add: objs'_def k_def nth_append)
      with lt show ?thesis by (simp add: addData_def)
    next
      case False
      with j have jk: "j < k" by simp
      then have "objs' ! j = pre ! j" by (simp add: objs'_def k_def nth_append)
      moreover from jk sorted have "address (pre ! j) < address l"
        by (simp add: sorted_wrt_append k_def)
      ultimately show ?thesis using lt by simp
    qed
  qed
  have here: "(address (objs' ! Suc k), data (objs' ! Suc k)) = (address n, data n)"
    by (simp add: objs'_def k_def nth_append)
  have rm: "remove_first (\<lambda>j. (address (objs' ! j), data (objs' ! j)) = (address n, data n))
              [0..<length objs] = Some [0..<Suc k]"
    unfolding upt2 using no_earlier here by (rule remove_first_last)
  have objs_k1: "objs ! (k + 1) = n" using objs_k by simp
  have "check_for [k] objs [0..<length objs] False =
          (case remove_first (\<lambda>j. (address (objs' ! j), data (objs' ! j)) = (address n, data n))
                  [0..<length objs] of
             None \<Rightarrow> Inl ValueError
           | Some live' \<Rightarrow> check_for [] objs' live' True)"
    by (simp only: check_for.simps Let_def objs_k objs_k1 upd adj [symmetric] simp_thms if_True)
  also have "\<dots> = Inr (objs', [0..<Suc k], True)"
    by (simp only: rm option.case check_for.simps)
  finally have last: "check_for [k] objs [0..<length objs] False = Inr (objs', [0..<Suc k], True)" .
  have res: "map ((!) objs') [0..<Suc k] = pre @ [addData l (data n)]"
  proof -
    have "objs' = (pre @ [addData l (data n)]) @ [n]" by (simp add: objs'_def)
    moreover have "Suc k = length (pre @ [addData l (data n)])" by (simp add: k_def)
    ultimately show ?thesis by (simp only: map_nth_prefix)
  qed
  have "check_for [0..<length objs - 1] objs [0..<length objs] False
          = Inr (objs', [0..<Suc k], True)"
    unfolding upt1 by (simp only: check_for_append first last sum.case prod.case)
  then show ?thesis
    unfolding check_pass_def objs_def [symmetric]
    by (simp only: sum.case prod.case res)
qed

lemma check_adjacent_last:
  assumes g: "gaps (pre @ [l])" and ne: "data l \<noteq> []" and adj: "address n = EndAddress l"
  shows "check (pre @ [l, n]) = Inr (pre @ [addData l (data n)])"
proof -
  have "address l \<le> address n" using adj by (simp add: EndAddress_def)
  with gaps_sorted [OF g] have "sorted (map address (pre @ [l, n]))"
    by (auto simp: sorted_append)
  then have s: "sort_key address (pre @ [l, n]) = pre @ [l, n]"
    by (rule sort_key_id_if_sorted)
  have g': "gaps (pre @ [addData l (data n)])"
    using g by (simp add: gaps_snoc addData_def)
  show ?thesis
    by (simp add: check_def s check_while.simps [of "pre @ [l, n]"]
          check_pass_adjacent_last [OF g ne adj] check_while_gaps_id [OF g'])
qed

lemma addRegion_new_last:
  "regions self = rs \<Longrightarrow> gaps (rs @ [\<lparr>address = a, data = d\<rparr>]) \<Longrightarrow>
     addRegion self a d = Inr (self\<lparr>regions := rs @ [\<lparr>address = a, data = d\<rparr>]\<rparr>)"
  by (simp add: addRegion_def check_gaps_id)

lemma addRegion_adjacent_last:
  "regions self = pre @ [l] \<Longrightarrow> gaps (pre @ [l]) \<Longrightarrow> data l \<noteq> [] \<Longrightarrow> a = EndAddress l \<Longrightarrow>
     addRegion self a d = Inr (self\<lparr>regions := pre @ [addData l d]\<rparr>)"
  using check_adjacent_last [of pre l "\<lparr>address = a, data = d\<rparr>"]
  by (simp add: addRegion_def)

section \<open>Overlapping and adjacent regions\<close>

lemma remove_first_mid:
  "P y \<Longrightarrow> \<exists>pre'. remove_first P (pre @ y # rest) = Some (pre' @ rest)"
proof (induction pre)
  case Nil
  then show ?case by (simp add: exI [of _ "[]"])
next
  case (Cons x pre)
  then obtain pre' where "remove_first P (pre @ y # rest) = Some (pre' @ rest)" by blast
  then show ?case
    by (cases "P x") (auto intro: exI [of _ pre] exI [of _ "x # pre'"])
qed

text \<open>
  In the first run of the loop every pair is compared with the values the regions had
  when the loop started, and the second region of a pair is still in the list when it
  is to be removed. So the first pair that overlaps raises.
\<close>

lemma check_for_overlap:
  assumes "k \<le> i" "i + 1 < n" "length objs = n"
    and "EndAddress (xs ! i) > address (xs ! (i + 1))"
    and "\<forall>j. k \<le> j \<and> j < n \<longrightarrow> objs ! j = xs ! j"
    and "\<exists>pre. live = pre @ [k + 1..<n]"
  shows "check_for [k..<n - 1] objs live change = Inl (HexFileException ''Overlapping regions'')"
  using assms
proof (induction "i - k" arbitrary: k objs live change)
  case 0
  then have ki: "k = i" by simp
  have "[k..<n - 1] = k # [Suc k..<n - 1]"
    using "0.prems"(2) ki by (intro upt_conv_Cons) simp
  moreover have "objs ! i = xs ! i" "objs ! (i + 1) = xs ! (i + 1)"
    using "0.prems"(2,5) ki by simp_all
  ultimately show ?case
    using "0.prems"(4) ki by (simp add: Let_def)
next
  case (Suc d)
  then have ki: "k < i" by simp
  have up: "[k..<n - 1] = k # [k + 1..<n - 1]"
    using Suc.prems(2) ki by (simp add: upt_conv_Cons)
  have vals: "objs ! k = xs ! k" "objs ! (k + 1) = xs ! (k + 1)" "objs ! Suc k = xs ! Suc k"
    using Suc.prems(2,5) ki by simp_all
  from Suc.prems(6) obtain pre where live: "live = pre @ [k + 1..<n]" by blast
  have up2: "[k + 1..<n] = (k + 1) # [k + 1 + 1..<n]"
    using Suc.prems(2) ki by (intro upt_conv_Cons [of "k + 1" n, simplified Suc_eq_plus1]) simp
  have d: "d = i - (k + 1)" using Suc.hyps(2) by simp
  have ki': "k + 1 \<le> i" using ki by simp
  show ?case
  proof (cases "EndAddress (xs ! k) = address (xs ! (k + 1))")
    case True
    define objs' where "objs' = objs[k := addData (xs ! k) (data (xs ! (k + 1)))]"
    have here: "(address (objs' ! (k + 1)), data (objs' ! (k + 1)))
                  = (address (xs ! (k + 1)), data (xs ! (k + 1)))"
      using vals(2) by (simp add: objs'_def)
    from remove_first_mid
      [of "\<lambda>j. (address (objs' ! j), data (objs' ! j)) = (address (xs ! (k + 1)), data (xs ! (k + 1)))"
          "k + 1" pre "[k + 1 + 1..<n]", OF here]
    obtain pre' where rm:
      "remove_first (\<lambda>j. (address (objs' ! j), data (objs' ! j))
                           = (address (xs ! (k + 1)), data (xs ! (k + 1)))) live
         = Some (pre' @ [k + 1 + 1..<n])"
      unfolding live up2 [symmetric] by (auto simp: up2)
    have step: "check_for [k..<n - 1] objs live change
                  = check_for [k + 1..<n - 1] objs' (pre' @ [k + 1 + 1..<n]) True"
      unfolding up
      by (simp only: check_for.simps Let_def vals True simp_thms if_True objs'_def [symmetric]
            rm option.case)
    have "check_for [k + 1..<n - 1] objs' (pre' @ [k + 1 + 1..<n]) True
            = Inl (HexFileException ''Overlapping regions'')"
    proof (rule Suc.hyps(1) [OF d ki' Suc.prems(2)])
      show "length objs' = n" using Suc.prems(3) by (simp add: objs'_def)
      show "address (xs ! (i + 1)) < EndAddress (xs ! i)" by (rule Suc.prems(4))
      show "\<forall>j. k + 1 \<le> j \<and> j < n \<longrightarrow> objs' ! j = xs ! j"
        using Suc.prems(5) by (simp add: objs'_def)
      show "\<exists>pre. pre' @ [k + 1 + 1..<n] = pre @ [k + 1 + 1..<n]" by blast
    qed
    with step show ?thesis by simp
  next
    case False
    show ?thesis
    proof (cases "EndAddress (xs ! k) > address (xs ! (k + 1))")
      case True
      with False show ?thesis unfolding up by (simp add: Let_def vals)
    next
      case gap: False
      have step: "check_for [k..<n - 1] objs live change = check_for [k + 1..<n - 1] objs live change"
        unfolding up using False gap by (simp add: Let_def vals)
      have "check_for [k + 1..<n - 1] objs live change
              = Inl (HexFileException ''Overlapping regions'')"
      proof (rule Suc.hyps(1) [OF d ki' Suc.prems(2,3,4)])
        show "\<forall>j. k + 1 \<le> j \<and> j < n \<longrightarrow> objs ! j = xs ! j"
          using Suc.prems(5) by simp
        have "live = (pre @ [k + 1]) @ [k + 1 + 1..<n]"
          by (simp only: live up2 append_assoc append_Cons append_Nil)
        then show "\<exists>pre. live = pre @ [k + 1 + 1..<n]" by blast
      qed
      with step show ?thesis by simp
    qed
  qed
qed

lemma check_while_overlap:
  assumes "i + 1 < length xs" "EndAddress (xs ! i) > address (xs ! (i + 1))"
  shows "check_while xs = Inl (HexFileException ''Overlapping regions'')"
proof -
  have "0 < length xs" using assms(1) by linarith
  then have "[0..<length xs] = 0 # [Suc 0..<length xs]" by (rule upt_conv_Cons)
  then have "[0..<length xs] = [0] @ [0 + 1..<length xs]" by simp
  then have "\<exists>pre. [0..<length xs] = pre @ [0 + 1..<length xs]" by (rule exI)
  from check_for_overlap [of 0 i "length xs" xs xs, OF _ assms(1) refl assms(2) _ this]
  have "check_pass xs = Inl (HexFileException ''Overlapping regions'')"
    by (simp add: check_pass_def)
  moreover have "length xs > 1" using assms(1) by simp
  ultimately show ?thesis by (simp add: check_while.simps [of xs])
qed

lemma no_overlap_sorted:
  assumes "\<forall>i. i + 1 < length xs \<longrightarrow> EndAddress (xs ! i) \<le> address (xs ! (i + 1))"
  shows "sorted_wrt (\<lambda>x y. EndAddress x \<le> address y) xs"
proof -
  have "transp (\<lambda>x y. EndAddress x \<le> address y)"
  proof (rule transpI)
    fix x y z assume "EndAddress x \<le> address y" "EndAddress y \<le> address z"
    with address_le_EndAddress [of y] show "EndAddress x \<le> address z" by simp
  qed
  from sorted_wrt_iff_nth_Suc_transp [OF this] assms show ?thesis by simp
qed

lemma check_overlap:
  assumes "e \<in> set rs" "address e < EndAddress nr" "address nr < EndAddress e"
  shows "check (rs @ [nr]) = Inl (HexFileException ''Overlapping regions'')"
proof -
  define xs where "xs = sort_key address (rs @ [nr])"
  have "\<exists>i. i + 1 < length xs \<and> EndAddress (xs ! i) > address (xs ! (i + 1))"
  proof (rule ccontr)
    assume neg: "\<not> ?thesis"
    have "\<forall>i. i + 1 < length xs \<longrightarrow> EndAddress (xs ! i) \<le> address (xs ! (i + 1))"
    proof (intro allI impI)
      fix i assume i: "i + 1 < length xs"
      show "EndAddress (xs ! i) \<le> address (xs ! (i + 1))"
      proof (rule ccontr)
        assume "\<not> EndAddress (xs ! i) \<le> address (xs ! (i + 1))"
        with i have "i + 1 < length xs \<and> EndAddress (xs ! i) > address (xs ! (i + 1))" by simp
        then have "\<exists>i. i + 1 < length xs \<and> EndAddress (xs ! i) > address (xs ! (i + 1))" by (rule exI)
        with neg show False by contradiction
      qed
    qed
    then have s: "sorted_wrt (\<lambda>x y. EndAddress x \<le> address y) xs" by (rule no_overlap_sorted)
    have "nr \<in> set xs" by (simp add: xs_def)
    then obtain A B where ab: "xs = A @ nr # B" by (auto dest: split_list)
    have "mset xs = mset rs + {#nr#}" by (simp add: xs_def)
    then have "mset (A @ B) = mset rs" by (simp add: ab)
    then have "set (A @ B) = set rs" by (rule mset_eq_setD)
    with assms(1) have "e \<in> set A \<or> e \<in> set B" by auto
    with s have "EndAddress e \<le> address nr \<or> EndAddress nr \<le> address e"
      by (auto simp: ab sorted_wrt_append)
    with assms(2,3) show False by auto
  qed
  then obtain i where "i + 1 < length xs" "EndAddress (xs ! i) > address (xs ! (i + 1))" by blast
  then show ?thesis unfolding check_def xs_def [symmetric] by (rule check_while_overlap)
qed

text \<open>
  A new region that shares an address with a region of the file is refused, whatever
  the file held before.
\<close>

lemma addRegion_overlap:
  assumes "e \<in> set (regions self)" "address e < a + int (length d)" "a < EndAddress e"
  shows "addRegion self a d = Inl (HexFileException ''Overlapping regions'')"
  using check_overlap [of e "regions self" "\<lparr>address = a, data = d\<rparr>"] assms
  by (simp add: addRegion_def EndAddress_def)

text \<open>
  The example of the overlap: after \<^verbatim>\<open>addRegion(0x100, b"\x11")\<close>,
  \<^verbatim>\<open>addRegion(0x100, b"\x00\x00")\<close> raises. A region at \<open>0x101\<close> instead starts where
  the first one ends and is appended to it.
\<close>

lemma addRegion_overlap_example:
  "addRegion HexFile_init 0x100 [0x11]
     = Inr \<lparr>regions = [\<lparr>address = 0x100, data = [0x11]\<rparr>], startAddress = 0\<rparr> \<and>
   addRegion \<lparr>regions = [\<lparr>address = 0x100, data = [0x11]\<rparr>], startAddress = 0\<rparr> 0x100 [0, 0]
     = Inl (HexFileException ''Overlapping regions'')"
  by code_simp

lemma addRegion_adjacent_example:
  "addRegion \<lparr>regions = [\<lparr>address = 0x100, data = [0x11]\<rparr>], startAddress = 0\<rparr> 0x101 [0, 0]
     = Inr \<lparr>regions = [\<lparr>address = 0x100, data = [0x11, 0, 0]\<rparr>], startAddress = 0\<rparr>"
  by code_simp

text \<open>
  C6: an overlapping region raises \<^verbatim>\<open>HexFileException('Overlapping regions')\<close>, and
  regions that are only adjacent are merged into one region. The first part holds
  (\<open>addRegion_overlap\<close>). The second part fails when the new region is adjacent to a
  region on each side: with \<open>(0, 01)\<close> and \<open>(2, 03)\<close> in the file, adding \<open>(1, 02)\<close> gives
  the single region \<open>(0, 01 02)\<close>. The loop of \<^verbatim>\<open>check\<close> walks over a copy of the list;
  after it has merged the new region into the first one and removed it from the list,
  it appends the data of the region at 2 to the removed object and removes that
  region too, so the byte \<open>03\<close> is lost instead of merged.
\<close>

theorem addRegion_between_drops_region:
  "addRegion HexFile_init 0 [1] = Inr \<lparr>regions = [\<lparr>address = 0, data = [1]\<rparr>], startAddress = 0\<rparr> \<and>
   addRegion \<lparr>regions = [\<lparr>address = 0, data = [1]\<rparr>], startAddress = 0\<rparr> 2 [3]
     = Inr \<lparr>regions = [\<lparr>address = 0, data = [1]\<rparr>, \<lparr>address = 2, data = [3]\<rparr>], startAddress = 0\<rparr> \<and>
   addRegion \<lparr>regions = [\<lparr>address = 0, data = [1]\<rparr>, \<lparr>address = 2, data = [3]\<rparr>], startAddress = 0\<rparr>
       1 [2]
     = Inr \<lparr>regions = [\<lparr>address = 0, data = [1, 2]\<rparr>], startAddress = 0\<rparr>"
  by code_simp

section \<open>Reading back what \<^verbatim>\<open>save\<close> wrote\<close>

lemma and_ffff0000:
  assumes "0 \<le> a" "a < 2 ^ 32"
  shows "(a::int) AND 0xFFFF0000 = (a div 65536) * 65536"
proof -
  have m: "(0xFFFF0000::int) = push_bit 16 (mask 16)"
    by (simp add: push_bit_eq_mult mask_eq_exp_minus_1)
  have a: "take_bit 32 a = a" using assms by (simp add: take_bit_int_eq_self)
  have "a AND push_bit 16 (mask 16) = push_bit 16 (drop_bit 16 a)"
  proof (rule bit_eqI)
    fix n
    have "bit a n \<Longrightarrow> n < 32"
      using a by (metis bit_take_bit_iff)
    then show "bit (a AND push_bit 16 (mask 16)) n = bit (push_bit 16 (drop_bit 16 a)) n"
      by (auto simp: bit_and_iff bit_push_bit_iff bit_drop_bit_eq bit_mask_iff)
  qed
  then show ?thesis by (simp add: m push_bit_eq_mult drop_bit_eq_div)
qed

lemma hexlify_last:
  "nums \<noteq> [] \<Longrightarrow> \<exists>cs n. hexlify nums = cs @ [hexdigit n] \<and> n < 16"
proof (induction nums rule: rev_induct)
  case Nil
  then show ?case by simp
next
  case (snoc b nums)
  have "hexlify (nums @ [b]) = (hexlify nums @ [hexdigit (unat b div 16)]) @ [hexdigit (unat b mod 16)]"
    by (simp add: hexlify_def)
  moreover have "unat b mod 16 < 16" by simp
  ultimately show ?case by blast
qed

lemma strip_line:
  assumes "n < 16"
  shows "strip (CHR '':'' # cs @ [hexdigit n] @ [CHR 0x0A]) = CHR '':'' # cs @ [hexdigit n]"
proof -
  have 1: "\<not> strip_space CHR '':''" by (simp add: strip_space_def)
  have 2: "strip_space (CHR 0x0A)" by (simp add: strip_space_def)
  have 3: "\<not> strip_space (hexdigit n)" using assms by (rule hexdigit_not_strip_space)
  show ?thesis using 1 2 3 by (simp add: strip_def)
qed

lemma record_bytes_nonempty: "record_bytes a t d \<noteq> []"
  by (simp add: record_bytes_def Let_def)

lemma hexfield_emit:
  assumes "0 \<le> a" "a \<le> 65535" "0 \<le> t" "t \<le> 255" "length d \<le> 255"
  shows "\<exists>l. emit a t d = Inr l \<and> hexfield l = Some (Inr (a, t, d))"
proof -
  from hexlify_last [OF record_bytes_nonempty [of a t d]]
  obtain cs n where h: "hexlify (record_bytes a t d) = cs @ [hexdigit n]" and n: "n < 16"
    by blast
  have e: "emit a t d = Inr (CHR '':'' # cs @ [hexdigit n] @ [CHR 0x0A])"
    using assms by (simp add: emit_def makeHexLine_eq h)
  have "hexfield (CHR '':'' # cs @ [hexdigit n] @ [CHR 0x0A])
          = Some (parseHexLine (CHR '':'' # hexlify (record_bytes a t d)))"
    unfolding hexfield_def strip_line [OF n] by (simp add: h)
  with e parseHexLine_record [OF assms] show ?thesis by simp
qed

lemma chunks_Nil [simp]: "chunks [] = []"
  by (simp add: chunks.simps)

lemma chunks_Cons:
  "dat \<noteq> [] \<Longrightarrow> chunks dat = take 16 dat # chunks (drop 16 dat)"
  by (subst chunks.simps) (simp add: csize_def)

lemma load_ela:
  assumes "0 \<le> m" "m \<le> 65535"
  shows "\<exists>p l. pack_H m = Inr p \<and> emit 0 EXTLINADR p = Inr l \<and>
           (\<forall>ls x self. load_loop (l # ls) (False, x, self) = load_loop ls (False, m * 65536, self))"
proof -
  define p :: "byte list" where "p = [word_of_int (m div 256), word_of_int (m mod 256)]"
  have pk: "pack_H m = Inr p" using assms by (simp add: pack_H_def p_def)
  have up: "unpack_H (take 2 p) = Inr m" using assms by (simp add: p_def unpack_pack_H)
  have "length p \<le> 255" by (simp add: p_def)
  from hexfield_emit [of 0 EXTLINADR p, OF _ _ _ _ this]
  obtain l where e: "emit 0 EXTLINADR p = Inr l" and h: "hexfield l = Some (Inr (0, EXTLINADR, p))"
    by (auto simp: EXTLINADR_def)
  have "load_loop (l # ls) (False, x, self) = load_loop ls (False, m * 65536, self)" for ls x self
    by (simp add: h EXTLINADR_def up push_bit_eq_mult)
  with pk e show ?thesis by blast
qed

lemma load_data:
  assumes "0 \<le> addr" "addr \<le> 65535" "length c \<le> 255"
  shows "\<exists>l. emit addr DATA c = Inr l \<and>
           (\<forall>ls x self. load_loop (l # ls) (False, x, self)
              = ebind (addRegion self (addr + x) c) (\<lambda>self'. load_loop ls (False, x, self')))"
proof -
  from hexfield_emit [of addr DATA c, OF assms(1,2) _ _ assms(3)]
  obtain l where e: "emit addr DATA c = Inr l" and h: "hexfield l = Some (Inr (addr, DATA, c))"
    by (auto simp: DATA_def)
  have "load_loop (l # ls) (False, x, self)
          = ebind (addRegion self (addr + x) c) (\<lambda>self'. load_loop ls (False, x, self'))" for ls x self
    by (cases "addRegion self (addr + x) c") (simp_all add: h DATA_def)
  with e show ?thesis by blast
qed

lemma addData_Nil [simp]: "addData l [] = l"
  by (simp add: addData_def)

lemma addData_addData [simp]: "addData (addData l xs) ys = addData l (xs @ ys)"
  by (simp add: addData_def)

lemma EndAddress_addData [simp]: "EndAddress (addData l xs) = EndAddress l + int (length xs)"
  by (simp add: addData_def EndAddress_def)

lemma gaps_snoc_addData: "gaps (pre @ [l]) \<Longrightarrow> gaps (pre @ [addData l xs])"
  by (simp add: gaps_snoc addData_def)

lemma save_chunks_load:
  assumes "regions self = pre @ [l]" "gaps (pre @ [l])" "data l \<noteq> []"
    "ext + addr = EndAddress l" "0 \<le> addr" "addr < 131072" "0 \<le> ext" "65536 dvd ext"
    "EndAddress l + int (length dat) \<le> 2 ^ 32"
  shows "\<exists>ls ext2. save_chunks (chunks dat) ext addr = Inr ls \<and>
           (\<forall>rest. load_loop (ls @ rest) (False, ext, self)
              = load_loop rest (False, ext2, self\<lparr>regions := pre @ [addData l dat]\<rparr>))"
  using assms
proof (induction dat arbitrary: self l ext addr rule: chunks.induct)
  case (1 dat)
  show ?case
  proof (cases "dat = []")
    case True
    have "self\<lparr>regions := pre @ [l]\<rparr> = self" using "1.prems"(1) by simp
    with True show ?thesis by (simp add: exI [of _ ext])
  next
    case False
    define c where "c = take 16 dat"
    define dat' where "dat' = drop 16 dat"
    have ch: "chunks dat = c # chunks dat'"
      using False by (simp add: chunks_Cons c_def dat'_def)
    have c_ne: "c \<noteq> []" using False by (simp add: c_def)
    have c_len: "length c \<le> 16" by (simp add: c_def)
    have dat_split: "dat = c @ dat'" by (simp add: c_def dat'_def)
    have dat_len: "length dat = length c + length dat'" by (subst dat_split) simp
    define ext1 where "ext1 = (if addr \<ge> 65536 then ext + 65536 else ext)"
    define addr1 where "addr1 = (if addr \<ge> 65536 then addr - 65536 else addr)"
    have sum1: "ext1 + addr1 = EndAddress l"
      using "1.prems"(4) by (simp add: ext1_def addr1_def)
    have addr1: "0 \<le> addr1" "addr1 \<le> 65535"
      using "1.prems"(5,6) by (auto simp: addr1_def)
    have ext1: "0 \<le> ext1" "65536 dvd ext1"
      using "1.prems"(7,8) by (auto simp: ext1_def)
    from load_data [OF addr1, of c] c_len
    obtain l2 where e2: "emit addr1 DATA c = Inr l2"
      and ld2: "\<And>ls x self. load_loop (l2 # ls) (False, x, self)
              = ebind (addRegion self (addr1 + x) c) (\<lambda>self'. load_loop ls (False, x, self'))"
      by auto
    define self1 where "self1 = self\<lparr>regions := pre @ [addData l c]\<rparr>"
    have add: "addRegion self (addr1 + ext1) c = Inr self1"
      unfolding self1_def
      using "1.prems"(1,2,3) sum1
      by (intro addRegion_adjacent_last) (simp_all add: add.commute)
    have "\<exists>ls ext2. save_chunks (chunks dat') ext1 (addr1 + int (length c)) = Inr ls \<and>
           (\<forall>rest. load_loop (ls @ rest) (False, ext1, self1)
              = load_loop rest (False, ext2, self1\<lparr>regions := pre @ [addData (addData l c) dat']\<rparr>))"
    proof (rule "1.IH" [unfolded csize_def, folded dat'_def, OF False])
      show "regions self1 = pre @ [addData l c]" by (simp add: self1_def)
      show "gaps (pre @ [addData l c])" using "1.prems"(2) by (rule gaps_snoc_addData)
      show "data (addData l c) \<noteq> []" using "1.prems"(3) by (simp add: addData_def)
      show "ext1 + (addr1 + int (length c)) = EndAddress (addData l c)" using sum1 by simp
      show "0 \<le> addr1 + int (length c)" using addr1 by simp
      show "addr1 + int (length c) < 131072" using addr1 c_len by simp
      show "0 \<le> ext1" "65536 dvd ext1" by (rule ext1)+
      show "EndAddress (addData l c) + int (length dat') \<le> 2 ^ 32"
        using "1.prems"(9) by (simp add: dat_len)
    qed
    then obtain ls ext2 where
      sv: "save_chunks (chunks dat') ext1 (addr1 + int (length c)) = Inr ls"
      and ld: "\<And>rest. load_loop (ls @ rest) (False, ext1, self1)
              = load_loop rest (False, ext2, self1\<lparr>regions := pre @ [addData (addData l c) dat']\<rparr>)"
      by blast
    have fin: "self1\<lparr>regions := pre @ [addData (addData l c) dat']\<rparr>
                 = self\<lparr>regions := pre @ [addData l dat]\<rparr>"
      by (simp add: self1_def dat_split [symmetric])
    show ?thesis
    proof (cases "addr \<ge> 65536")
      case far: True
      then have e1: "ext1 = ext + 65536" and a1: "addr1 = addr - 65536"
        by (simp_all add: ext1_def addr1_def)
      have "ext1 + addr1 < 2 ^ 32"
        using sum1 "1.prems"(9) c_ne dat_len by (cases c) auto
      with addr1 ext1 have m: "0 \<le> ext1 div 65536" "ext1 div 65536 \<le> 65535"
        by auto
      from load_ela [OF m]
      obtain p l1 where pk: "pack_H (ext1 div 65536) = Inr p"
        and el: "emit 0 EXTLINADR p = Inr l1"
        and ld1: "\<And>ls x self. load_loop (l1 # ls) (False, x, self)
                    = load_loop ls (False, ext1 div 65536 * 65536, self)"
        by blast
      have mul: "ext1 div 65536 * 65536 = ext1" using ext1(2) by simp
      have "save_chunks (chunks dat) ext addr = Inr (l1 # l2 # ls)"
        using far pk el e2 sv
        by (simp add: ch Let_def drop_bit_eq_div e1 [symmetric] a1 [symmetric])
      moreover have "load_loop ((l1 # l2 # ls) @ rest) (False, ext, self)
              = load_loop rest (False, ext2, self\<lparr>regions := pre @ [addData l dat]\<rparr>)" for rest
      proof -
        have "load_loop ((l1 # l2 # ls) @ rest) (False, ext, self)
                = load_loop (l2 # ls @ rest) (False, ext1, self)"
          by (simp only: append_Cons ld1 mul)
        also have "\<dots> = ebind (addRegion self (addr1 + ext1) c)
                             (\<lambda>self'. load_loop (ls @ rest) (False, ext1, self'))"
          by (simp only: ld2)
        also have "\<dots> = load_loop (ls @ rest) (False, ext1, self1)"
          by (simp only: add ebind_simps)
        also have "\<dots> = load_loop rest (False, ext2, self\<lparr>regions := pre @ [addData l dat]\<rparr>)"
          by (simp only: ld fin)
        finally show ?thesis .
      qed
      ultimately show ?thesis by blast
    next
      case near: False
      then have e1: "ext1 = ext" and a1: "addr1 = addr"
        by (simp_all add: ext1_def addr1_def)
      have "save_chunks (chunks dat) ext addr = Inr (l2 # ls)"
        using near e2 sv by (simp add: ch e1 [symmetric] a1 [symmetric])
      moreover have "load_loop ((l2 # ls) @ rest) (False, ext, self)
              = load_loop rest (False, ext2, self\<lparr>regions := pre @ [addData l dat]\<rparr>)" for rest
      proof -
        have "load_loop ((l2 # ls) @ rest) (False, ext, self)
                = ebind (addRegion self (addr1 + ext1) c)
                    (\<lambda>self'. load_loop (ls @ rest) (False, ext1, self'))"
          by (simp only: append_Cons ld2 e1)
        also have "\<dots> = load_loop (ls @ rest) (False, ext1, self1)"
          by (simp only: add ebind_simps)
        also have "\<dots> = load_loop rest (False, ext2, self\<lparr>regions := pre @ [addData l dat]\<rparr>)"
          by (simp only: ld fin)
        finally show ?thesis .
      qed
      ultimately show ?thesis by blast
    qed
  qed
qed

lemma gaps_append_left: "gaps (xs @ ys) \<Longrightarrow> gaps xs"
proof (induction xs rule: gaps.induct)
  case (3 r1 r2 rs)
  then show ?case by simp
qed simp_all

lemma save_regions_load:
  assumes "regions self = pre" "gaps (pre @ rs)"
    "\<forall>r\<in>set rs. data r \<noteq> [] \<and> 0 \<le> address r \<and> EndAddress r \<le> 2 ^ 32"
  shows "\<exists>ls ext2. save_regions rs = Inr ls \<and>
           (\<forall>rest. load_loop (ls @ rest) (False, ext0, self)
              = load_loop rest (False, ext2, self\<lparr>regions := pre @ rs\<rparr>))"
  using assms
proof (induction rs arbitrary: pre self ext0)
  case Nil
  then have "self\<lparr>regions := pre\<rparr> = self" by auto
  then show ?case by (simp add: exI [of _ ext0])
next
  case (Cons r rs)
  define a where "a = address r"
  define c where "c = take 16 (data r)"
  define dat' where "dat' = drop 16 (data r)"
  from Cons.prems(3) have ne: "data r \<noteq> []" and a0: "0 \<le> a" and e32: "EndAddress r \<le> 2 ^ 32"
    by (simp_all add: a_def)
  have c_ne: "c \<noteq> []" using ne by (simp add: c_def)
  have c_len: "length c \<le> 255" by (simp add: c_def)
  have split: "data r = c @ dat'" by (simp add: c_def dat'_def)
  have len: "length (data r) = length c + length dat'" by (subst split) simp
  have a32: "a < 2 ^ 32"
    using e32 ne by (cases "data r") (auto simp: EndAddress_def a_def)
  define ext where "ext = a AND 0xFFFF0000"
  have ext: "ext = a div 65536 * 65536" unfolding ext_def using a0 a32 by (rule and_ffff0000)
  define addr where "addr = a - ext"
  have addr: "addr = a mod 65536" by (simp add: addr_def ext minus_div_mult_eq_mod)
  have addr_range: "0 \<le> addr" "addr \<le> 65535" by (simp_all add: addr)
  have m: "0 \<le> drop_bit 16 ext" "drop_bit 16 ext \<le> 65535"
    using a0 a32 by (simp_all add: ext drop_bit_eq_div)
  from load_ela [OF m]
  obtain p l1 where pk: "pack_H (drop_bit 16 ext) = Inr p"
    and el: "emit 0 EXTLINADR p = Inr l1"
    and ld1: "\<And>ls x self. load_loop (l1 # ls) (False, x, self) = load_loop ls (False, ext, self)"
    by (auto simp: ext drop_bit_eq_div)
  from load_data [OF addr_range c_len]
  obtain l2 where e2: "emit addr DATA c = Inr l2"
    and ld2: "\<And>ls x self. load_loop (l2 # ls) (False, x, self)
              = ebind (addRegion self (addr + x) c) (\<lambda>self'. load_loop ls (False, x, self'))"
    by auto
  define l where "l = \<lparr>address = a, data = c\<rparr>"
  define self1 where "self1 = self\<lparr>regions := pre @ [l]\<rparr>"
  have g_r: "gaps (pre @ [r])"
    using Cons.prems(2) gaps_append_left [of "pre @ [r]" rs] by simp
  then have g_l: "gaps (pre @ [l])" by (simp add: gaps_snoc l_def a_def)
  have sum0: "addr + ext = a" by (simp add: addr_def)
  have add: "addRegion self (addr + ext) c = Inr self1"
    unfolding sum0 self1_def l_def
    using Cons.prems(1) g_l [unfolded l_def] by (rule addRegion_new_last)
  have "\<exists>ls ext2. save_chunks (chunks dat') ext (addr + int (length c)) = Inr ls \<and>
           (\<forall>rest. load_loop (ls @ rest) (False, ext, self1)
              = load_loop rest (False, ext2, self1\<lparr>regions := pre @ [addData l dat']\<rparr>))"
  proof (rule save_chunks_load)
    show "regions self1 = pre @ [l]" by (simp add: self1_def)
    show "gaps (pre @ [l])" by (rule g_l)
    show "data l \<noteq> []" using c_ne by (simp add: l_def)
    show "ext + (addr + int (length c)) = EndAddress l"
      using sum0 by (simp add: l_def EndAddress_def)
    show "0 \<le> addr + int (length c)" using addr_range by simp
    show "addr + int (length c) < 131072" using addr_range c_len by simp
    show "0 \<le> ext" using a0 by (simp add: ext)
    show "65536 dvd ext" by (simp add: ext)
    show "EndAddress l + int (length dat') \<le> 2 ^ 32"
      using e32 by (simp add: l_def EndAddress_def a_def len)
  qed
  then obtain ls2 ext2 where
    sv2: "save_chunks (chunks dat') ext (addr + int (length c)) = Inr ls2"
    and ldc: "\<And>rest. load_loop (ls2 @ rest) (False, ext, self1)
              = load_loop rest (False, ext2, self1\<lparr>regions := pre @ [addData l dat']\<rparr>)"
    by blast
  have l_r: "addData l dat' = r"
    by (simp add: l_def addData_def a_def split [symmetric])
  define self2 where "self2 = self\<lparr>regions := pre @ [r]\<rparr>"
  have fin: "self1\<lparr>regions := pre @ [addData l dat']\<rparr> = self2"
    by (simp add: self1_def self2_def l_r)
  have "\<exists>ls ext3. save_regions rs = Inr ls \<and>
           (\<forall>rest. load_loop (ls @ rest) (False, ext2, self2)
              = load_loop rest (False, ext3, self2\<lparr>regions := (pre @ [r]) @ rs\<rparr>))"
  proof (rule Cons.IH)
    show "regions self2 = pre @ [r]" by (simp add: self2_def)
    show "gaps ((pre @ [r]) @ rs)" using Cons.prems(2) by simp
    show "\<forall>r\<in>set rs. data r \<noteq> [] \<and> 0 \<le> address r \<and> EndAddress r \<le> 2 ^ 32"
      using Cons.prems(3) by simp
  qed
  then obtain ls3 ext3 where
    sv3: "save_regions rs = Inr ls3"
    and ldr: "\<And>rest. load_loop (ls3 @ rest) (False, ext2, self2)
              = load_loop rest (False, ext3, self2\<lparr>regions := (pre @ [r]) @ rs\<rparr>)"
    by blast
  have fin2: "self2\<lparr>regions := (pre @ [r]) @ rs\<rparr> = self\<lparr>regions := pre @ r # rs\<rparr>"
    by (simp add: self2_def)
  have ch: "chunks (data r) = c # chunks dat'"
    using ne by (simp add: chunks_Cons c_def dat'_def)
  have svc: "save_chunks (chunks (data r)) ext addr = Inr (l2 # ls2)"
    using addr_range e2 sv2 by (simp add: ch)
  have "save_regions (r # rs) = Inr (l1 # (l2 # ls2) @ ls3)"
    using pk el svc sv3
    by (simp add: Let_def a_def [symmetric] ext_def [symmetric] addr_def [symmetric])
  moreover have "load_loop ((l1 # (l2 # ls2) @ ls3) @ rest) (False, ext0, self)
          = load_loop rest (False, ext3, self\<lparr>regions := pre @ r # rs\<rparr>)" for rest
  proof -
    have "load_loop ((l1 # (l2 # ls2) @ ls3) @ rest) (False, ext0, self)
            = load_loop (l2 # ls2 @ ls3 @ rest) (False, ext, self)"
      by (simp only: append_Cons append_assoc ld1)
    also have "\<dots> = ebind (addRegion self (addr + ext) c)
                         (\<lambda>self'. load_loop (ls2 @ ls3 @ rest) (False, ext, self'))"
      by (simp only: ld2)
    also have "\<dots> = load_loop (ls2 @ ls3 @ rest) (False, ext, self1)"
      by (simp only: add ebind_simps)
    also have "\<dots> = load_loop (ls3 @ rest) (False, ext2, self2)"
      by (simp only: ldc fin)
    also have "\<dots> = load_loop rest (False, ext3, self\<lparr>regions := pre @ r # rs\<rparr>)"
      by (simp only: ldr fin2)
    finally show ?thesis .
  qed
  ultimately show ?case by blast
qed

lemma load_eof:
  "\<exists>l. emit 0 EOF [] = Inr l \<and>
         (\<forall>x self. load_loop [l] (False, x, self) = Inr (True, x, self))"
proof -
  from hexfield_emit [of 0 EOF "[]"]
  obtain l where e: "emit 0 EOF [] = Inr l" and h: "hexfield l = Some (Inr (0, EOF, []))"
    by (auto simp: EOF_def)
  have "load_loop [l] (False, x, self) = Inr (True, x, self)" for x self
    by (simp add: h EOF_def EXTLINADR_def)
  with e show ?thesis by blast
qed

text \<open>
  C1, amended: let the regions of \<open>x\<close> be as \<^verbatim>\<open>addRegion\<close> leaves them (in strictly
  increasing order with a gap between consecutive ones), each with at least one byte
  and inside the 32-bit address space (\<open>0 \<le> address\<close> and \<open>EndAddress \<le> 2\<^sup>3\<^sup>2\<close>). Then
  \<^verbatim>\<open>save\<close> succeeds, and \<^verbatim>\<open>load\<close> of what it wrote into a fresh \<^verbatim>\<open>HexFile\<close> succeeds and
  gives a file with the same regions, equal to \<open>x\<close>. Regions that span a 64 KiB boundary
  are included: a region of 20 bytes at \<open>0xFFF8\<close> is written as two data records with
  an Extended Linear Address record between them.
\<close>

theorem save_load_roundtrip:
  assumes "separated (regions x)"
    and "\<forall>r\<in>set (regions x). data r \<noteq> [] \<and> 0 \<le> address r \<and> EndAddress r \<le> 2 ^ 32"
  shows "\<exists>f y. save x = Inr f \<and> load HexFile_init f = Inr y \<and> regions y = regions x \<and>
           HexFile_eq y x"
proof -
  from assms(1) have g: "gaps ([] @ regions x)" by (simp add: separated_gaps)
  have "regions HexFile_init = []" by (simp add: HexFile_init_def)
  from save_regions_load [OF this g assms(2), of 0]
  obtain ls ext2 where sv: "save_regions (regions x) = Inr ls"
    and ld: "\<And>rest. load_loop (ls @ rest) (False, 0, HexFile_init)
              = load_loop rest (False, ext2, HexFile_init\<lparr>regions := [] @ regions x\<rparr>)"
    by blast
  from load_eof obtain l where e: "emit 0 EOF [] = Inr l"
    and le: "\<And>x self. load_loop [l] (False, x, self) = Inr (True, x, self)"
    by blast
  define y where "y = HexFile_init\<lparr>regions := [] @ regions x\<rparr>"
  have "save x = Inr (ls @ [l])" by (simp add: save_def sv e)
  moreover have "load HexFile_init (ls @ [l]) = Inr y"
    by (simp only: load_def ld le y_def ebind_simps prod.case)
  moreover have "regions y = regions x" by (simp add: y_def)
  moreover from this have "HexFile_eq y x" by (simp add: HexFile_eq_iff)
  ultimately show ?thesis by blast
qed

theorem save_load_roundtrip_witness:
  "separated [\<lparr>address = 0xFFF8, data = [1, 2, 3, 4, 5, 6, 7, 8, 9, 10, 11, 12, 13, 14, 15, 16, 17, 18, 19, 20]\<rparr>] \<and>
   [1, 2, 3, 4, 5, 6, 7, 8, 9, 10, 11, 12, 13, 14, 15, 16, 17, 18, 19, 20 :: byte] \<noteq> [] \<and>
   (0 :: int) \<le> 0xFFF8 \<and>
   EndAddress \<lparr>address = 0xFFF8, data = [1, 2, 3, 4, 5, 6, 7, 8, 9, 10, 11, 12, 13, 14, 15, 16, 17, 18, 19, 20]\<rparr> \<le> 2 ^ 32 \<and>
   save \<lparr>regions = [\<lparr>address = 0xFFF8, data = [1, 2, 3, 4, 5, 6, 7, 8, 9, 10, 11, 12, 13, 14, 15, 16, 17, 18, 19, 20]\<rparr>],
         startAddress = 0\<rparr>
     = Inr ['':020000040000fa\<newline>'', '':10fff8000102030405060708090a0b0c0d0e0f1071\<newline>'',
            '':020000040001f9\<newline>'', '':0400080011121314aa\<newline>'', '':00000001ff\<newline>''] \<and>
   (\<exists>f y. save \<lparr>regions = [\<lparr>address = 0xFFF8, data = [1, 2, 3, 4, 5, 6, 7, 8, 9, 10, 11, 12, 13, 14, 15, 16, 17, 18, 19, 20]\<rparr>],
         startAddress = 0\<rparr> = Inr f \<and>
      load HexFile_init f = Inr y \<and>
      regions y = [\<lparr>address = 0xFFF8, data = [1, 2, 3, 4, 5, 6, 7, 8, 9, 10, 11, 12, 13, 14, 15, 16, 17, 18, 19, 20]\<rparr>] \<and>
      HexFile_eq y \<lparr>regions = [\<lparr>address = 0xFFF8, data = [1, 2, 3, 4, 5, 6, 7, 8, 9, 10, 11, 12, 13, 14, 15, 16, 17, 18, 19, 20]\<rparr>],
         startAddress = 0\<rparr>)"
proof -
  have s: "save \<lparr>regions = [\<lparr>address = 0xFFF8, data = [1, 2, 3, 4, 5, 6, 7, 8, 9, 10, 11, 12, 13, 14, 15, 16, 17, 18, 19, 20]\<rparr>],
         startAddress = 0\<rparr>
     = Inr ['':020000040000fa\<newline>'', '':10fff8000102030405060708090a0b0c0d0e0f1071\<newline>'',
            '':020000040001f9\<newline>'', '':0400080011121314aa\<newline>'', '':00000001ff\<newline>'']"
    by code_simp
  have h1: "separated [\<lparr>address = 0xFFF8, data = [1, 2, 3, 4, 5, 6, 7, 8, 9, 10, 11, 12, 13, 14, 15, 16, 17, 18, 19, 20 :: byte]\<rparr>]"
    by (simp add: separated_def)
  from save_load_roundtrip
    [of "\<lparr>regions = [\<lparr>address = 0xFFF8, data = [1, 2, 3, 4, 5, 6, 7, 8, 9, 10, 11, 12, 13, 14, 15, 16, 17, 18, 19, 20]\<rparr>],
         startAddress = 0\<rparr>"] h1
  have "\<exists>f y. save \<lparr>regions = [\<lparr>address = 0xFFF8, data = [1, 2, 3, 4, 5, 6, 7, 8, 9, 10, 11, 12, 13, 14, 15, 16, 17, 18, 19, 20]\<rparr>],
         startAddress = 0\<rparr> = Inr f \<and>
      load HexFile_init f = Inr y \<and>
      regions y = [\<lparr>address = 0xFFF8, data = [1, 2, 3, 4, 5, 6, 7, 8, 9, 10, 11, 12, 13, 14, 15, 16, 17, 18, 19, 20]\<rparr>] \<and>
      HexFile_eq y \<lparr>regions = [\<lparr>address = 0xFFF8, data = [1, 2, 3, 4, 5, 6, 7, 8, 9, 10, 11, 12, 13, 14, 15, 16, 17, 18, 19, 20]\<rparr>],
         startAddress = 0\<rparr>"
    by (simp add: EndAddress_def)
  with s h1 show ?thesis by (simp add: EndAddress_def)
qed

text \<open>
  C1, as stated: every file whose regions were added successfully is equal to what
  \<^verbatim>\<open>load\<close> reads back from its \<^verbatim>\<open>save\<close>. A region without data is added successfully,
  but \<^verbatim>\<open>save\<close> writes no data record for it, so the file read back has no region and
  is not equal to the original.
\<close>

theorem save_load_roundtrip_counterexample:
  "addRegion HexFile_init 0x100 [] = Inr \<lparr>regions = [\<lparr>address = 0x100, data = []\<rparr>], startAddress = 0\<rparr> \<and>
   save \<lparr>regions = [\<lparr>address = 0x100, data = []\<rparr>], startAddress = 0\<rparr>
     = Inr ['':020000040000fa\<newline>'', '':00000001ff\<newline>''] \<and>
   load HexFile_init ['':020000040000fa\<newline>'', '':00000001ff\<newline>''] = Inr HexFile_init \<and>
   \<not> HexFile_eq HexFile_init \<lparr>regions = [\<lparr>address = 0x100, data = []\<rparr>], startAddress = 0\<rparr>"
  by code_simp

section \<open>The call sequence of \<^verbatim>\<open>make_call\<close>\<close>

lemma store_loop_eq:
  "store_loop rs i =
     (map (\<lambda>k. Sw (rs ! k) (i - 4 * int k) SP) [0..<length rs], i - 4 * int (length rs))"
proof (induction rs arbitrary: i)
  case Nil
  then show ?case by simp
next
  case (Cons r rs)
  show ?case
    by (simp add: Cons.IH map_upt_Suc algebra_simps del: upt_Suc)
qed

lemma load_regs_loop_eq:
  "load_regs_loop rs i =
     (map (\<lambda>k. Lw (rs ! k) (i + 4 * (int k + 1)) SP) [0..<length rs], i + 4 * int (length rs))"
proof (induction rs arbitrary: i)
  case Nil
  then show ?case by simp
next
  case (Cons r rs)
  show ?case
    by (simp add: Cons.IH map_upt_Suc algebra_simps del: upt_Suc)
qed

lemma loads_reversed:
  "map (\<lambda>k. Lw (rev rs ! k) (4 + 4 * (int k + 1)) SP) [0..<length rs]
     = rev (map (\<lambda>k. Lw (rs ! k) (4 * (int (length rs) + 1) - 4 * int k) SP) [0..<length rs])"
proof (rule nth_equalityI)
  show "length (map (\<lambda>k. Lw (rev rs ! k) (4 + 4 * (int k + 1)) SP) [0..<length rs])
          = length (rev (map (\<lambda>k. Lw (rs ! k) (4 * (int (length rs) + 1) - 4 * int k) SP)
                      [0..<length rs]))"
    by simp
next
  fix k
  assume "k < length (map (\<lambda>k. Lw (rev rs ! k) (4 + 4 * (int k + 1)) SP) [0..<length rs])"
  then have k: "k < length rs" by simp
  then have "int (length rs - Suc k) = int (length rs) - 1 - int k" by simp
  with k show "map (\<lambda>k. Lw (rev rs ! k) (4 + 4 * (int k + 1)) SP) [0..<length rs] ! k
          = rev (map (\<lambda>k. Lw (rs ! k) (4 * (int (length rs) + 1) - 4 * int k) SP)
                  [0..<length rs]) ! k"
    by (simp add: rev_nth)
qed

lemma make_call_eq:
  "make_call live_regs name =
     map (\<lambda>k. Sw (live_regs ! k) (- 4 * int k) SP) [0..<length live_regs]
     @ [Sw LR (- 4 * int (length live_regs)) SP,
        Add SP SP (- 4 * (int (length live_regs) + 1)),
        Bl LR name,
        Lw LR 4 SP]
     @ rev (map (\<lambda>k. Lw (live_regs ! k) (4 * (int (length live_regs) + 1) - 4 * int k) SP)
              [0..<length live_regs])
     @ [Add SP SP (4 * (int (length live_regs) + 1))]"
  using loads_reversed [of live_regs]
  by (simp add: make_call_def store_loop_eq load_regs_loop_eq algebra_simps)


lemma exec_append: "exec c (xs @ ys) s = exec c ys (exec c xs s)"
  by (induction xs arbitrary: s) auto

lemma slot_distinct:
  assumes "k < m" "m < 2 ^ 30"
  shows "(word_of_int (- 4 * int k) :: 32 word) \<noteq> word_of_int (- 4 * int m)"
proof
  assume "(word_of_int (- 4 * int k) :: 32 word) = word_of_int (- 4 * int m)"
  then have "(- 4 * int k) mod 2 ^ LENGTH(32) = (- 4 * int m) mod 2 ^ LENGTH(32)"
    by (simp only: word_of_int_eq_iff take_bit_eq_mod)
  then have "(- 4 * int k) mod 2 ^ 32 = (- 4 * int m) mod 2 ^ 32"
    by simp
  then have "(2 ^ 32 :: int) dvd (- 4 * int k) - (- 4 * int m)"
    by (simp only: mod_eq_dvd_iff)
  then have d: "(2 ^ 32 :: int) dvd 4 * (int m - int k)" by (simp add: algebra_simps)
  have "0 < 4 * (int m - int k)" using assms(1) by simp
  moreover have "4 * (int m - int k) < 2 ^ 32" using assms by simp
  ultimately show False using d zdvd_not_zless by blast
qed

lemma exec_stores:
  assumes "m \<le> length rs" "m < 2 ^ 30"
  shows "regs (exec c (map (\<lambda>k. Sw (rs ! k) (- 4 * int k) SP) [0..<m]) s) = regs s \<and>
         (\<forall>k<m. mem (exec c (map (\<lambda>k. Sw (rs ! k) (- 4 * int k) SP) [0..<m]) s)
                    (regs s SP + word_of_int (- 4 * int k)) = regs s (rs ! k)) \<and>
         (\<forall>a. (\<forall>k<m. a \<noteq> regs s SP + word_of_int (- 4 * int k)) \<longrightarrow>
              mem (exec c (map (\<lambda>k. Sw (rs ! k) (- 4 * int k) SP) [0..<m]) s) a = mem s a)"
  using assms
proof (induction m)
  case 0
  then show ?case by simp
next
  case (Suc m)
  define t where "t = exec c (map (\<lambda>k. Sw (rs ! k) (- 4 * int k) SP) [0..<m]) s"
  from Suc have IH:
    "regs t = regs s"
    "\<And>k. k < m \<Longrightarrow> mem t (regs s SP + word_of_int (- 4 * int k)) = regs s (rs ! k)"
    "\<And>a. (\<forall>k<m. a \<noteq> regs s SP + word_of_int (- 4 * int k)) \<Longrightarrow> mem t a = mem s a"
    by (simp_all add: t_def)
  have "exec c (map (\<lambda>k. Sw (rs ! k) (- 4 * int k) SP) [0..<Suc m]) s
          = exec_instruction c (Sw (rs ! m) (- 4 * int m) SP) t"
    by (simp only: upt_Suc_append [OF le0] map_append exec_append t_def list.map exec.simps)
  then have step: "exec c (map (\<lambda>k. Sw (rs ! k) (- 4 * int k) SP) [0..<Suc m]) s
          = t\<lparr>mem := (mem t)(regs s SP + word_of_int (- 4 * int m) := regs s (rs ! m))\<rparr>"
    by (simp only: exec_instruction.simps IH(1))
  have d: "regs s SP + word_of_int (- 4 * int k) \<noteq> regs s SP + word_of_int (- 4 * int m)"
    if "k < m" for k
    using slot_distinct [OF that] Suc.prems(2) by simp
  show ?case
    unfolding step
  proof (intro conjI allI impI)
    show "regs (t\<lparr>mem := (mem t)(regs s SP + word_of_int (- 4 * int m) := regs s (rs ! m))\<rparr>)
            = regs s"
      by (simp add: IH(1))
  next
    fix k assume "k < Suc m"
    then show "mem (t\<lparr>mem := (mem t)(regs s SP + word_of_int (- 4 * int m) := regs s (rs ! m))\<rparr>)
                 (regs s SP + word_of_int (- 4 * int k)) = regs s (rs ! k)"
      using d [of k] IH(2) [of k] by (cases "k = m") auto
  next
    fix a assume a: "\<forall>k<Suc m. a \<noteq> regs s SP + word_of_int (- 4 * int k)"
    then have "a \<noteq> regs s SP + word_of_int (- 4 * int m)" by simp
    moreover from a have "mem t a = mem s a" by (intro IH(3)) simp
    ultimately show "mem (t\<lparr>mem := (mem t)(regs s SP + word_of_int (- 4 * int m) := regs s (rs ! m))\<rparr>) a
                       = mem s a"
      by simp
  qed
qed

lemma exec_loads:
  assumes "\<forall>ins\<in>set is. \<exists>r off. ins = Lw r off SP \<and> r \<noteq> SP \<and>
             mem t (regs t SP + word_of_int off) = v r"
  shows "mem (exec c is t) = mem t \<and> regs (exec c is t) SP = regs t SP \<and>
         (\<forall>r. (\<exists>off. Lw r off SP \<in> set is) \<longrightarrow> regs (exec c is t) r = v r) \<and>
         (\<forall>r. (\<forall>off. Lw r off SP \<notin> set is) \<longrightarrow> regs (exec c is t) r = regs t r)"
  using assms
proof (induction "is" arbitrary: t)
  case Nil
  then show ?case by simp
next
  case (Cons ins "is")
  from Cons.prems obtain r off where ins: "ins = Lw r off SP" and r: "r \<noteq> SP"
    and val: "mem t (regs t SP + word_of_int off) = v r"
    by auto
  define t1 where "t1 = exec_instruction c ins t"
  have t1: "mem t1 = mem t" "regs t1 SP = regs t SP" "regs t1 r = v r"
    "\<And>r'. r' \<noteq> r \<Longrightarrow> regs t1 r' = regs t r'"
    using r val by (simp_all add: t1_def ins)
  have "\<forall>ins\<in>set is. \<exists>r off. ins = Lw r off SP \<and> r \<noteq> SP \<and>
             mem t1 (regs t1 SP + word_of_int off) = v r"
    using Cons.prems by (simp add: t1)
  from Cons.IH [OF this] have IH:
    "mem (exec c is t1) = mem t"
    "regs (exec c is t1) SP = regs t SP"
    "\<And>r off. Lw r off SP \<in> set is \<Longrightarrow> regs (exec c is t1) r = v r"
    "\<And>r. (\<forall>off. Lw r off SP \<notin> set is) \<Longrightarrow> regs (exec c is t1) r = regs t1 r"
    by (auto simp: t1)
  have e: "exec c (ins # is) t = exec c is t1" by (simp add: t1_def)
  show ?case
    unfolding e
  proof (intro conjI allI impI)
    show "mem (exec c is t1) = mem t" by (rule IH(1))
    show "regs (exec c is t1) SP = regs t SP" by (rule IH(2))
  next
    fix r' assume "\<exists>off. Lw r' off SP \<in> set (ins # is)"
    then consider (later) off where "Lw r' off SP \<in> set is"
      | (here) "r' = r" "\<forall>off. Lw r' off SP \<notin> set is"
      by (auto simp: ins)
    then show "regs (exec c is t1) r' = v r'"
    proof cases
      case later
      then show ?thesis by (rule IH(3))
    next
      case here
      then show ?thesis using IH(4) [of r'] t1(3) by simp
    qed
  next
    fix r' assume n: "\<forall>off. Lw r' off SP \<notin> set (ins # is)"
    then have "r' \<noteq> r" by (auto simp: ins)
    with n show "regs (exec c is t1) r' = regs t r'"
      using IH(4) [of r'] t1(4) [of r'] by simp
  qed
qed


lemma make_call_exec:
  assumes sp: "SP \<notin> set live_regs" and n: "length live_regs < 2 ^ 30 - 1"
    and callee: "callee_keeps_frame (length live_regs + 1) callee"
  shows "regs (exec callee (make_call live_regs name) s) SP = regs s SP \<and>
         regs (exec callee (make_call live_regs name) s) LR = regs s LR \<and>
         (\<forall>r\<in>set live_regs. regs (exec callee (make_call live_regs name) s) r = regs s r)"
proof -
  define n where "n = length live_regs"
  define saved where "saved = live_regs @ [LR]"
  define SP0 where "SP0 = regs s SP"
  define SP1 where "SP1 = SP0 + word_of_int (- 4 * (int n + 1))"
  define loads where
    "loads = Lw LR 4 SP # rev (map (\<lambda>k. Lw (live_regs ! k) (4 * (int n + 1) - 4 * int k) SP) [0..<n])"
  have stores: "map (\<lambda>k. Sw (live_regs ! k) (- 4 * int k) SP) [0..<n] @ [Sw LR (- 4 * int n) SP]
                  = map (\<lambda>k. Sw (saved ! k) (- 4 * int k) SP) [0..<Suc n]"
    by (simp add: saved_def n_def nth_append)
  have "make_call live_regs name =
      (map (\<lambda>k. Sw (live_regs ! k) (- 4 * int k) SP) [0..<n] @ [Sw LR (- 4 * int n) SP])
      @ [Add SP SP (- 4 * (int n + 1)), Bl LR name] @ loads @ [Add SP SP (4 * (int n + 1))]"
    by (simp add: make_call_eq loads_def n_def)
  then have code: "make_call live_regs name =
      map (\<lambda>k. Sw (saved ! k) (- 4 * int k) SP) [0..<Suc n]
      @ [Add SP SP (- 4 * (int n + 1)), Bl LR name] @ loads @ [Add SP SP (4 * (int n + 1))]"
    by (simp only: stores)
  define s2 where "s2 = exec callee (map (\<lambda>k. Sw (saved ! k) (- 4 * int k) SP) [0..<Suc n]) s"
  have "Suc n \<le> length saved" "Suc n < 2 ^ 30"
    using n by (simp_all add: saved_def n_def)
  from exec_stores [OF this, of callee s]
  have s2: "regs s2 = regs s"
    "\<And>k. k \<le> n \<Longrightarrow> mem s2 (SP0 + word_of_int (- 4 * int k)) = regs s (saved ! k)"
    by (simp_all add: s2_def SP0_def less_Suc_eq_le)
  define s3 where "s3 = exec_instruction callee (Add SP SP (- 4 * (int n + 1))) s2"
  have s3: "regs s3 SP = SP1" "mem s3 = mem s2"
    by (simp_all add: s3_def s2(1) SP1_def SP0_def)
  define s4 where "s4 = exec_instruction callee (Bl LR name) s3"
  have s4_sp: "regs s4 SP = SP1"
    using callee by (simp add: s4_def callee_keeps_frame_def s3(1))
  have slot: "SP1 + word_of_nat (4 * (n + 1 - k)) = SP0 + word_of_int (- 4 * int k)" if "k \<le> n" for k
    using that by (simp add: SP1_def of_nat_diff algebra_simps)
  have s4_mem: "mem s4 (SP0 + word_of_int (- 4 * int k)) = regs s (saved ! k)" if "k \<le> n" for k
  proof -
    have "1 \<le> n + 1 - k \<and> n + 1 - k \<le> length live_regs + 1"
      using that by (simp add: n_def)
    with callee have "mem (callee name s3) (regs s3 SP + word_of_nat (4 * (n + 1 - k)))
            = mem s3 (regs s3 SP + word_of_nat (4 * (n + 1 - k)))"
      unfolding callee_keeps_frame_def by blast
    then show ?thesis
      using that by (simp only: s4_def exec_instruction.simps s3 slot s2(2))
  qed
  have saved_nth: "saved ! n = LR" "\<And>k. k < n \<Longrightarrow> saved ! k = live_regs ! k"
    by (simp_all add: saved_def n_def nth_append)
  have lr_slot: "SP1 + word_of_int 4 = SP0 + word_of_int (- 4 * int n)"
    by (simp add: SP1_def algebra_simps)
  have reg_slot: "SP1 + word_of_int (4 * (int n + 1) - 4 * int k) = SP0 + word_of_int (- 4 * int k)" for k
    by (simp add: SP1_def algebra_simps)
  have "\<forall>ins\<in>set loads. \<exists>r off. ins = Lw r off SP \<and> r \<noteq> SP \<and>
             mem s4 (regs s4 SP + word_of_int off) = regs s r"
  proof
    fix ins assume "ins \<in> set loads"
    then consider "ins = Lw LR 4 SP"
      | k where "k < n" "ins = Lw (live_regs ! k) (4 * (int n + 1) - 4 * int k) SP"
      by (auto simp: loads_def)
    then show "\<exists>r off. ins = Lw r off SP \<and> r \<noteq> SP \<and>
             mem s4 (regs s4 SP + word_of_int off) = regs s r"
    proof cases
      case 1
      have "mem s4 (regs s4 SP + word_of_int 4) = regs s LR"
        using s4_mem [of n] by (simp only: s4_sp lr_slot saved_nth(1) le_refl)
      moreover have "LR \<noteq> SP" by (simp add: LR_def SP_def)
      ultimately show ?thesis using 1 by blast
    next
      case 2
      have "mem s4 (regs s4 SP + word_of_int (4 * (int n + 1) - 4 * int k)) = regs s (live_regs ! k)"
        using s4_mem [of k] 2(1) by (simp only: s4_sp reg_slot) (simp add: saved_nth(2))
      moreover have "live_regs ! k \<noteq> SP"
        using sp 2(1) by (metis n_def nth_mem)
      ultimately show ?thesis using 2(2) by blast
    qed
  qed
  from exec_loads [OF this, of callee]
  have s5: "regs (exec callee loads s4) SP = SP1"
    "\<And>r off. Lw r off SP \<in> set loads \<Longrightarrow> regs (exec callee loads s4) r = regs s r"
    by (auto simp: s4_sp)
  have run: "exec callee (make_call live_regs name) s
          = exec_instruction callee (Add SP SP (4 * (int n + 1))) (exec callee loads s4)"
    unfolding code by (simp add: exec_append s2_def s3_def s4_def)
  have undo: "SP1 + word_of_int (4 * (int n + 1)) = SP0"
    by (simp add: SP1_def)
  have lr: "regs (exec callee loads s4) LR = regs s LR"
    by (rule s5(2) [of LR 4]) (simp add: loads_def)
  have live: "regs (exec callee loads s4) r = regs s r" if "r \<in> set live_regs" for r
  proof -
    from that obtain k where "k < n" "r = live_regs ! k"
      by (auto simp: in_set_conv_nth n_def)
    then have "Lw r (4 * (int n + 1) - 4 * int k) SP \<in> set loads"
      by (auto simp: loads_def)
    then show ?thesis by (rule s5(2))
  qed
  show ?thesis
    unfolding run
  proof (intro conjI ballI)
    show "regs (exec_instruction callee (Add SP SP (4 * (int n + 1))) (exec callee loads s4)) SP
            = regs s SP"
      by (simp only: exec_instruction.simps s5(1) undo SP0_def) simp
    show "regs (exec_instruction callee (Add SP SP (4 * (int n + 1))) (exec callee loads s4)) LR
            = regs s LR"
      using lr by (simp add: LR_def SP_def)
  next
    fix r assume r: "r \<in> set live_regs"
    with sp have "r \<noteq> SP" by auto
    with live [OF r]
    show "regs (exec_instruction callee (Add SP SP (4 * (int n + 1))) (exec callee loads s4)) r
            = regs s r"
      by simp
  qed
qed


text \<open>
  C2, as stated: \<^verbatim>\<open>make_call\<close> stores each live register and then \<^verbatim>\<open>ra\<close> below
  \<^verbatim>\<open>SP\<close>. The counter \<^verbatim>\<open>i\<close> starts at 0, so the first store of every sequence is at
  offset 0, into the word at \<^verbatim>\<open>SP\<close> itself: the first live register when there is one,
  \<^verbatim>\<open>ra\<close> when there is none.
\<close>

theorem make_call_symmetric_counterexample:
  "make_call [R5, R6] ''foo''
     = [Sw R5 0 SP, Sw R6 (- 4) SP, Sw LR (- 8) SP, Add SP SP (- 12), Bl LR ''foo'',
        Lw LR 4 SP, Lw R6 8 SP, Lw R5 12 SP, Add SP SP 12] \<and>
   \<not> stores_below_SP (make_call [R5, R6] ''foo'') \<and>
   make_call [] ''foo''
     = [Sw LR 0 SP, Add SP SP (- 4), Bl LR ''foo'', Lw LR 4 SP, Add SP SP 4] \<and>
   \<not> stores_below_SP (make_call [] ''foo'')"
  by code_simp

text \<open>
  C2, amended: for the list \<^verbatim>\<open>live_regs\<close> of the \<open>n\<close> registers live over the call,
  \<^verbatim>\<open>make_call\<close> yields: the store of register \<open>k\<close> at offset \<open>-4k\<close> from \<^verbatim>\<open>SP\<close> (offsets
  \<open>0, -4, \<dots>\<close>: the first store is into the word at \<^verbatim>\<open>SP\<close> itself, the others are below
  it), the store of \<^verbatim>\<open>ra\<close> at \<open>-4n\<close>, the decrement of \<^verbatim>\<open>SP\<close> by \<open>4(n + 1)\<close>, the
  \<^verbatim>\<open>bl\<close>, the reload of \<^verbatim>\<open>ra\<close> from offset 4, the reloads of the registers in reverse
  order, register \<open>k\<close> from offset \<open>4(n + 1) - 4k\<close> of the new \<^verbatim>\<open>SP\<close>, which is the slot it
  was stored to, and the increment of \<^verbatim>\<open>SP\<close> by \<open>4(n + 1)\<close>. When the called function
  returns with the stack pointer it was given and with these \<open>n + 1\<close> words intact,
  \<^verbatim>\<open>SP\<close>, \<^verbatim>\<open>ra\<close> and every live register hold their values from before the sequence
  (for \<open>n = 2\<close> the decrement is 12).
\<close>

theorem make_call_symmetric:
  "make_call live_regs name =
     map (\<lambda>k. Sw (live_regs ! k) (- 4 * int k) SP) [0..<length live_regs]
     @ [Sw LR (- 4 * int (length live_regs)) SP,
        Add SP SP (- 4 * (int (length live_regs) + 1)),
        Bl LR name,
        Lw LR 4 SP]
     @ rev (map (\<lambda>k. Lw (live_regs ! k) (4 * (int (length live_regs) + 1) - 4 * int k) SP)
              [0..<length live_regs])
     @ [Add SP SP (4 * (int (length live_regs) + 1))] \<and>
   (SP \<notin> set live_regs \<and> length live_regs < 2 ^ 30 - 1 \<and>
    callee_keeps_frame (length live_regs + 1) callee \<longrightarrow>
      regs (exec callee (make_call live_regs name) s) SP = regs s SP \<and>
      regs (exec callee (make_call live_regs name) s) LR = regs s LR \<and>
      (\<forall>r\<in>set live_regs. regs (exec callee (make_call live_regs name) s) r = regs s r))"
  using make_call_eq [of live_regs name] make_call_exec [of live_regs callee name s]
  by blast

theorem make_call_symmetric_witness:
  "SP \<notin> set [R5, R6] \<and> length [R5, R6] < 2 ^ 30 - 1 \<and>
   callee_keeps_frame 3 (\<lambda>name s. s\<lparr>regs := (\<lambda>r. if r = SP then regs s SP else 0)\<rparr>) \<and>
   make_call [R5, R6] ''foo''
     = [Sw R5 0 SP, Sw R6 (- 4) SP, Sw LR (- 8) SP, Add SP SP (- 12), Bl LR ''foo'',
        Lw LR 4 SP, Lw R6 8 SP, Lw R5 12 SP, Add SP SP 12] \<and>
   regs (exec (\<lambda>name s. s\<lparr>regs := (\<lambda>r. if r = SP then regs s SP else 0)\<rparr>)
           (make_call [R5, R6] ''foo'')
           \<lparr>regs = (\<lambda>r. case r of RiscvRegister k \<Rightarrow> 0x1000 + of_nat k), mem = (\<lambda>a. 0)\<rparr>) SP
     = 0x1002 \<and>
   regs (exec (\<lambda>name s. s\<lparr>regs := (\<lambda>r. if r = SP then regs s SP else 0)\<rparr>)
           (make_call [R5, R6] ''foo'')
           \<lparr>regs = (\<lambda>r. case r of RiscvRegister k \<Rightarrow> 0x1000 + of_nat k), mem = (\<lambda>a. 0)\<rparr>) LR
     = 0x1001 \<and>
   regs (exec (\<lambda>name s. s\<lparr>regs := (\<lambda>r. if r = SP then regs s SP else 0)\<rparr>)
           (make_call [R5, R6] ''foo'')
           \<lparr>regs = (\<lambda>r. case r of RiscvRegister k \<Rightarrow> 0x1000 + of_nat k), mem = (\<lambda>a. 0)\<rparr>) R5
     = 0x1005 \<and>
   regs (exec (\<lambda>name s. s\<lparr>regs := (\<lambda>r. if r = SP then regs s SP else 0)\<rparr>)
           (make_call [R5, R6] ''foo'')
           \<lparr>regs = (\<lambda>r. case r of RiscvRegister k \<Rightarrow> 0x1000 + of_nat k), mem = (\<lambda>a. 0)\<rparr>) R6
     = 0x1006"
proof -
  have h1: "SP \<notin> set [R5, R6]" by (simp add: reg_defs)
  have h2: "length [R5, R6] < 2 ^ 30 - 1" by simp
  have h3: "callee_keeps_frame (length [R5, R6] + 1)
              (\<lambda>name s. s\<lparr>regs := (\<lambda>r. if r = SP then regs s SP else 0)\<rparr>)"
    by (simp add: callee_keeps_frame_def)
  have up: "[0..<2] = [0, 1]" by (simp add: upt_rec)
  from make_call_symmetric
    [of "[R5, R6]" "''foo''" "\<lambda>name s. s\<lparr>regs := (\<lambda>r. if r = SP then regs s SP else 0)\<rparr>"
        "\<lparr>regs = (\<lambda>r. case r of RiscvRegister k \<Rightarrow> 0x1000 + of_nat k), mem = (\<lambda>a. 0)\<rparr>"]
    h1 h2 h3
  show ?thesis
    by (simp add: up reg_defs numeral_3_eq_3)
qed

end
